theory Spec2Isabelle
  imports Main "HOL-Library.AList" "HOL-Library.Sublist"
begin

section \<open>JavaScript arrays and values\<close>

text \<open>
  Indices are JavaScript numbers; the model takes the integers among them, so that the
  \<open>-1\<close> of \<open>indexOf\<close> and an out-of-range read are values of the model. Reading an array
  outside its bounds gives \<open>undefined\<close>, here \<open>None\<close>.
\<close>

definition js_index :: "'a list \<Rightarrow> int \<Rightarrow> 'a option" where
  "js_index xs i = (if 0 \<le> i \<and> i < int (length xs) then Some (xs ! nat i) else None)"

fun indexOf :: "'a list \<Rightarrow> 'a \<Rightarrow> int" where
  "indexOf [] x = - 1"
| "indexOf (y # ys) x =
     (if y = x then 0 else (let i = indexOf ys x in if i < 0 then - 1 else i + 1))"

text \<open>\<open>xs.splice(start, 1)\<close>: a negative start counts from the end, a start past the end removes nothing.\<close>

definition splice1 :: "'a list \<Rightarrow> int \<Rightarrow> 'a list" where
  "splice1 xs start =
     (let n = int (length xs);
          st = (if start < 0 then max (n + start) 0 else min start n)
      in take (nat st) xs @ drop (nat st + 1) xs)"

text \<open>Every \<open>throw\<close> and every failed \<open>expect\<close> of the helpers is a value of this type.\<close>

datatype error =
    NoTestDataFound string int
  | NoPageTypesFound int
  | ContextDoesNotExist int
  | PageDoesNotExist int int
  | RequestContextNotFound int
  | ExtraHeadersNotFound
  | TypeError
  | ExpectContextNotFound int
  | ExpectTabNotFound int int
  | ExpectAlreadyWorkingOnTab int int
  | ExpectPageType "string option" string
  | ExpectNotWorkingContext int
  | ExpectNotWorkingTab int int
  | ExpectRequestContextNotFound int
  | ExpectAlreadyWorkingOnContext int

section \<open>testDataHelper\<close>

type_synonym testData = "string \<rightharpoonup> string list"

definition pushTestData :: "string \<Rightarrow> string \<Rightarrow> testData \<Rightarrow> testData" where
  "pushTestData key val td =
     (let vals = (case td key of None \<Rightarrow> [] | Some vs \<Rightarrow> vs)
      in td(key \<mapsto> vals @ [val]))"

text \<open>\<open>!(value = values[index])\<close> is true for \<open>undefined\<close> and for the empty string.\<close>

definition getTestData :: "string \<Rightarrow> int \<Rightarrow> testData \<Rightarrow> error + string" where
  "getTestData key index td =
     (case td key of
        None \<Rightarrow> Inl (NoTestDataFound key index)
      | Some vals \<Rightarrow>
          (case js_index vals index of
             None \<Rightarrow> Inl (NoTestDataFound key index)
           | Some val \<Rightarrow> if val = [] then Inl (NoTestDataFound key index) else Inr val))"

definition resetTestData :: testData where
  "resetTestData = Map.empty"

text \<open>A test's calls of \<open>pushTestData\<close>, in order, on the store as \<open>resetTestData\<close> leaves it.\<close>

definition pushAll :: "(string \<times> string) list \<Rightarrow> testData" where
  "pushAll pushes = fold (\<lambda>(k, v). pushTestData k v) pushes resetTestData"

definition pushedUnder :: "string \<Rightarrow> (string \<times> string) list \<Rightarrow> string list" where
  "pushedUnder key pushes = map snd (filter (\<lambda>(k, v). k = key) pushes)"

section \<open>stepSequenceHelper: strings, the row pattern\<close>

text \<open>
  The strings of the module are stack traces. \<open>split_nl\<close> is \<open>s.split("\n")\<close>, \<open>join_nl\<close> is
  \<open>rows.join("\n")\<close> and \<open>s.includes(t)\<close> is \<^term>\<open>sublist t s\<close>.
\<close>

definition newline :: char where
  "newline = CHR 0x0A"

fun split_nl :: "string \<Rightarrow> string list" where
  "split_nl [] = [[]]"
| "split_nl (c # cs) =
     (if c = newline then [] # split_nl cs
      else (case split_nl cs of [] \<Rightarrow> [[c]] | row # rows \<Rightarrow> (c # row) # rows))"

fun join_nl :: "string list \<Rightarrow> string" where
  "join_nl [] = []"
| "join_nl [row] = row"
| "join_nl (row # rows) = row @ newline # join_nl rows"

text \<open>
  \<open>GetSubstitution\<close> of the language standard, for a string pattern (no capture groups):
  in the replacement text \<open>$$\<close> is a dollar sign, \<open>$&\<close> the matched text, \<open>$`\<close> the text
  before the match and \<open>$'\<close> the text after it; any other \<open>$\<close> stays as it is.
\<close>

fun getSubstitution :: "string \<Rightarrow> string \<Rightarrow> string \<Rightarrow> string \<Rightarrow> string" where
  "getSubstitution matched bef aft (c # d # rest) =
     (if c = CHR ''$'' \<and> d = CHR ''$'' then CHR ''$'' # getSubstitution matched bef aft rest
      else if c = CHR ''$'' \<and> d = CHR ''&'' then matched @ getSubstitution matched bef aft rest
      else if c = CHR ''$'' \<and> d = CHR 0x60 then bef @ getSubstitution matched bef aft rest
      else if c = CHR ''$'' \<and> d = CHR 0x27 then aft @ getSubstitution matched bef aft rest
      else c # getSubstitution matched bef aft (d # rest))"
| "getSubstitution matched bef aft rest = rest"

text \<open>\<open>s.replace(pattern, replacement)\<close> with a string pattern: the first occurrence only.\<close>

fun replace_from :: "string \<Rightarrow> string \<Rightarrow> string \<Rightarrow> string \<Rightarrow> string" where
  "replace_from bef pattern replacement s =
     (if prefix pattern s
      then bef @ getSubstitution pattern bef (drop (length pattern) s) replacement
             @ drop (length pattern) s
      else (case s of [] \<Rightarrow> bef
            | c # cs \<Rightarrow> replace_from (bef @ [c]) pattern replacement cs))"

definition replace :: "string \<Rightarrow> string \<Rightarrow> string \<Rightarrow> string" where
  "replace s pattern replacement = replace_from [] pattern replacement s"

text \<open>
  Regular expressions as far as \<open>testFilePath\<close> needs them. \<open>rmatch r s\<close> lists what is left
  of \<open>s\<close> after each way \<open>r\<close> matches a prefix of it; \<open>regex_test r s\<close> is \<open>r.test(s)\<close> for a
  pattern without flags: a match starting anywhere. The dot matches every character but a
  line terminator.
\<close>

datatype cls = Lit char | AnyChar | Digit

fun cls_match :: "cls \<Rightarrow> char \<Rightarrow> bool" where
  "cls_match (Lit c) d = (d = c)"
| "cls_match AnyChar d = (d \<noteq> CHR 0x0A \<and> d \<noteq> CHR 0x0D)"
| "cls_match Digit d = (d \<in> set ''0123456789'')"

datatype regex = Eps | Cls cls | Plus cls | Str string | Seq regex regex | Alt regex regex

fun plus_rests :: "cls \<Rightarrow> string \<Rightarrow> string list" where
  "plus_rests c [] = []"
| "plus_rests c (d # ds) = (if cls_match c d then plus_rests c ds @ [ds] else [])"

fun rmatch :: "regex \<Rightarrow> string \<Rightarrow> string list" where
  "rmatch Eps s = [s]"
| "rmatch (Cls c) s = (case s of [] \<Rightarrow> [] | d # ds \<Rightarrow> if cls_match c d then [ds] else [])"
| "rmatch (Plus c) s = plus_rests c s"
| "rmatch (Str w) s = (if prefix w s then [drop (length w) s] else [])"
| "rmatch (Seq a b) s = concat (map (rmatch b) (rmatch a s))"
| "rmatch (Alt a b) s = rmatch a s @ rmatch b s"

fun regex_test :: "regex \<Rightarrow> string \<Rightarrow> bool" where
  "regex_test r [] = (rmatch r [] \<noteq> [])"
| "regex_test r (c # cs) = (rmatch r (c # cs) \<noteq> [] \<or> regex_test r cs)"

text \<open>\<open>/(\\|\/).+.spec.ts:[0-9]+:[0-9]+/\<close>: the dots of \<open>.spec.ts\<close> are not escaped.\<close>

definition testFilePath :: regex where
  "testFilePath =
     foldr Seq
       [Alt (Cls (Lit (CHR 0x5C))) (Cls (Lit (CHR ''/''))), Plus AnyChar, Cls AnyChar,
        Str ''spec'', Cls AnyChar, Str ''ts:'', Plus Digit, Str '':'', Plus Digit]
       Eps"

section \<open>stepSequenceHelper: the promise chain\<close>

text \<open>
  An \<open>Error\<close> object is its message and its \<open>stack\<close> property (which may be undefined);
  anything else that can be thrown is a \<open>NonError\<close>. The environment of the module gives
  \<open>import.meta.url\<close> and the stack that the engine captures for an \<open>Error\<close> created inside
  the module.
\<close>

record js_error =
  message :: string
  stack :: "string option"

datatype thrown = ErrorObj js_error | NonError string

record env =
  import_meta_url :: string
  captured_stack :: "string \<Rightarrow> string option"

definition new_Error :: "env \<Rightarrow> string \<Rightarrow> js_error" where
  "new_Error env msg = \<lparr>message = msg, stack = captured_stack env msg\<rparr>"

definition found_0_rows :: string where
  "found_0_rows = ''Found 0 rows matching /('' @ [CHR 0x5C, CHR 0x5C] @ ''|'' @ [CHR 0x5C]
     @ ''/).+.spec.ts:[0-9]+:[0-9]+/''"

definition found_multiple_rows :: string where
  "found_multiple_rows = ''Found multiple rows matching /('' @ [CHR 0x5C, CHR 0x5C] @ ''|''
     @ [CHR 0x5C] @ ''/).+.spec.ts:[0-9]+:[0-9]+/''"

text \<open>\<open>!testCallRow\<close> holds for \<open>undefined\<close> (no row matched) and for the empty string.\<close>

definition getTestCallRowInStack :: "env \<Rightarrow> string \<Rightarrow> js_error + string" where
  "getTestCallRowInStack env callStack =
     (let testCallRows = filter (regex_test testFilePath) (split_nl callStack)
      in case testCallRows of
           [] \<Rightarrow> Inl (new_Error env found_0_rows)
         | testCallRow # _ \<Rightarrow>
             if testCallRow = [] then Inl (new_Error env found_0_rows)
             else if length testCallRows > 1 then Inl (new_Error env found_multiple_rows)
             else Inr testCallRow)"

text \<open>
  A promise of the chain is what it has done to the world once it settles: it is fulfilled,
  or rejected with the value thrown. A step's callback is the same kind of thing.
  \<open>promise_then\<close> and \<open>promise_catch\<close> are \<open>Promise.prototype.then\<close> with one handler and
  \<open>Promise.prototype.catch\<close>; a catch handler returns (\<open>Inr\<close>) or throws (\<open>Inl\<close>).
\<close>

datatype 'w settled = Fulfilled 'w | Rejected thrown 'w

type_synonym 'w promise = "'w \<Rightarrow> 'w settled"

definition resolve :: "'w promise" where
  "resolve = Fulfilled"

definition promise_then :: "'w promise \<Rightarrow> ('w \<Rightarrow> 'w settled) \<Rightarrow> 'w promise" where
  "promise_then p onFulfilled =
     (\<lambda>w. case p w of Fulfilled w' \<Rightarrow> onFulfilled w' | Rejected x w' \<Rightarrow> Rejected x w')"

definition promise_catch :: "'w promise \<Rightarrow> (thrown \<Rightarrow> thrown + unit) \<Rightarrow> 'w promise" where
  "promise_catch p onRejected =
     (\<lambda>w. case p w of
            Fulfilled w' \<Rightarrow> Fulfilled w'
          | Rejected x w' \<Rightarrow>
              (case onRejected x of Inl x' \<Rightarrow> Rejected x' w' | Inr _ \<Rightarrow> Fulfilled w'))"

text \<open>The test framework's \<open>test.step\<close> runs the body and settles as the body does.\<close>

definition test_step :: "string \<Rightarrow> ('w \<Rightarrow> 'w settled) \<Rightarrow> ('w \<Rightarrow> 'w settled)" where
  "test_step title body = body"

text \<open>
  The handler that \<open>addStep\<close> installs with \<open>.catch\<close>; \<open>myErrorStack\<close> is the stack of the
  \<open>Error\<close> created when \<open>addStep\<close> was called. \<open>error.stack && myError.stack\<close> needs both to
  be defined and non-empty.
\<close>

definition rewriteStack :: "env \<Rightarrow> string \<Rightarrow> string \<Rightarrow> string \<Rightarrow> string" where
  "rewriteStack env errorStack promiseAwaitRow stepCallRow =
     join_nl (filter (\<lambda>row. \<not> sublist (import_meta_url env) row)
       (split_nl (replace errorStack promiseAwaitRow stepCallRow)))"

definition catchHandler :: "env \<Rightarrow> string option \<Rightarrow> thrown \<Rightarrow> thrown + unit" where
  "catchHandler env myErrorStack x =
     (case x of
        NonError v \<Rightarrow> Inr ()
      | ErrorObj error \<Rightarrow>
          (case (stack error, myErrorStack) of
             (Some errorStack, Some myStack) \<Rightarrow>
               if errorStack \<noteq> [] \<and> myStack \<noteq> []
                  \<and> sublist (import_meta_url env) errorStack
                  \<and> regex_test testFilePath myStack
               then (case getTestCallRowInStack env myStack of
                       Inl thrownError \<Rightarrow> Inl (ErrorObj thrownError)
                     | Inr stepCallRow \<Rightarrow>
                         (case getTestCallRowInStack env errorStack of
                            Inl thrownError \<Rightarrow> Inl (ErrorObj thrownError)
                          | Inr promiseAwaitRow \<Rightarrow>
                              Inl (ErrorObj (error\<lparr>stack :=
                                Some (rewriteStack env errorStack promiseAwaitRow stepCallRow)\<rparr>))))
               else Inl (ErrorObj error)
           | _ \<Rightarrow> Inl (ErrorObj error)))"

definition addStep ::
  "env \<Rightarrow> string option \<Rightarrow> string \<Rightarrow> ('w \<Rightarrow> 'w settled) \<Rightarrow> 'w promise \<Rightarrow> 'w promise" where
  "addStep env myErrorStack title callback stepSequence =
     promise_catch (promise_then stepSequence (test_step title callback)) (catchHandler env myErrorStack)"

definition resetStepSequence :: "'w promise" where
  "resetStepSequence = resolve"

text \<open>
  A test registers its steps one after the other on the chain that \<open>resetStepSequence\<close>
  left: each registration is the stack at the call of \<open>addStep\<close>, the title and the callback.
\<close>

type_synonym 'w registration = "string option \<times> string \<times> ('w \<Rightarrow> 'w settled)"

definition addSteps :: "env \<Rightarrow> 'w registration list \<Rightarrow> 'w promise" where
  "addSteps env regs =
     foldl (\<lambda>stepSequence (myErrorStack, title, callback).
              addStep env myErrorStack title callback stepSequence)
       resetStepSequence regs"

text \<open>
  To observe the order of execution, a callback can be wrapped so that it records when it
  begins and when it has completed in a log carried beside the world.
\<close>

datatype event = Begin nat | End nat

definition traced :: "nat \<Rightarrow> ('w \<Rightarrow> 'w settled) \<Rightarrow> ('w \<times> event list \<Rightarrow> ('w \<times> event list) settled)" where
  "traced i callback =
     (\<lambda>(w, log). case callback w of
          Fulfilled w' \<Rightarrow> Fulfilled (w', log @ [Begin i, End i])
        | Rejected x w' \<Rightarrow> Rejected x (w', log @ [Begin i, End i]))"

definition traceAll :: "'w registration list \<Rightarrow> ('w \<times> event list) registration list" where
  "traceAll regs =
     map (\<lambda>(i, (myErrorStack, title, callback)). (myErrorStack, title, traced i callback))
       (enumerate 0 regs)"

definition events :: "nat \<Rightarrow> event list" where
  "events m = concat (map (\<lambda>i. [Begin i, End i]) [0..<m])"

text \<open>
  The reading of the documentation, to compare the chain with: the callbacks run one after
  the other in the order of registration, each in the world the one before left, and the
  run stops at the first callback that rejects with an \<open>Error\<close>.
\<close>

datatype 'w run = Completed 'w | Stopped nat js_error 'w

fun runSequentially :: "nat \<Rightarrow> ('w \<Rightarrow> 'w settled) list \<Rightarrow> 'w \<Rightarrow> 'w run" where
  "runSequentially i [] w = Completed w"
| "runSequentially i (callback # callbacks) w =
     (case callback w of
        Fulfilled w' \<Rightarrow> runSequentially (Suc i) callbacks w'
      | Rejected (NonError v) w' \<Rightarrow> runSequentially (Suc i) callbacks w'
      | Rejected (ErrorObj e) w' \<Rightarrow> Stopped i e w')"

text \<open>The \<open>Error\<close> as the catch handlers of the given registrations hand it on, one to the next.\<close>

definition handedOn :: "env \<Rightarrow> string option list \<Rightarrow> js_error \<Rightarrow> js_error" where
  "handedOn env myErrorStacks e =
     foldl (\<lambda>e' myErrorStack.
              case catchHandler env myErrorStack (ErrorObj e') of
                Inl (ErrorObj e'') \<Rightarrow> e'' | _ \<Rightarrow> e')
       e myErrorStacks"

text \<open>An environment and stacks of the shape the engine prints, for the examples.\<close>

definition example_env :: env where
  "example_env =
     \<lparr>import_meta_url = ''file:///lib/stepSequenceHelper.js'',
      captured_stack = (\<lambda>msg. Some (''Error: '' @ msg @ [newline]
        @ ''    at getTestCallRowInStack (file:///lib/stepSequenceHelper.js:35:11)''))\<rparr>"

definition example_call_stack :: string where
  "example_call_stack =
     ''Error'' @ [newline]
     @ ''    at Object.addStep (file:///lib/stepSequenceHelper.js:96:21)'' @ [newline]
     @ ''    at LoginPage.open (/proj/pages/loginPage.ts:12:24)'' @ [newline]
     @ ''    at /proj/tests/login.spec.ts:8:6''"

definition example_call_stack_nested :: string where
  "example_call_stack_nested =
     ''Error'' @ [newline]
     @ ''    at Object.addStep (file:///lib/stepSequenceHelper.js:96:21)'' @ [newline]
     @ ''    at LoginPage.open (/proj/pages/loginPage.ts:12:24)'' @ [newline]
     @ ''    at logIn (/proj/tests/login.spec.ts:3:10)'' @ [newline]
     @ ''    at /proj/tests/login.spec.ts:8:6''"

definition example_error :: js_error where
  "example_error =
     \<lparr>message = ''boom'',
      stack = Some (''Error: boom'' @ [newline]
        @ ''    at /proj/pages/loginPage.ts:13:13'' @ [newline]
        @ ''    at step (file:///lib/stepSequenceHelper.js:98:18)'' @ [newline]
        @ ''    at /proj/tests/login.spec.ts:9:3'')\<rparr>"



section \<open>Steps that read and change helper state\<close>

text \<open>
  A callback of the browser and request helpers reads and mutates module state and either
  completes or throws (a failed \<open>expect\<close> throws as well). It is modelled as a function from
  the state to its result, \<open>Inl\<close> the error thrown, and the state as the callback left it.
\<close>

type_synonym ('s, 'a) action = "'s \<Rightarrow> (error + 'a) \<times> 's"

definition ret :: "'a \<Rightarrow> ('s, 'a) action" where
  "ret a = (\<lambda>s. (Inr a, s))"

definition throw :: "error \<Rightarrow> ('s, 'a) action" where
  "throw e = (\<lambda>s. (Inl e, s))"

definition andThen :: "('s, 'a) action \<Rightarrow> ('a \<Rightarrow> ('s, 'b) action) \<Rightarrow> ('s, 'b) action" where
  "andThen m f = (\<lambda>s. case m s of (Inl e, s') \<Rightarrow> (Inl e, s') | (Inr a, s') \<Rightarrow> f a s')"

definition expect :: "bool \<Rightarrow> error \<Rightarrow> ('s, unit) action" where
  "expect holds e = (if holds then ret () else throw e)"

definition modify :: "('s \<Rightarrow> 's) \<Rightarrow> ('s, unit) action" where
  "modify f = (\<lambda>s. (Inr (), f s))"

definition completes :: "(error + 'a) \<times> 's \<Rightarrow> bool" where
  "completes r = (case fst r of Inl e \<Rightarrow> False | Inr a \<Rightarrow> True)"

section \<open>requestHelper\<close>

text \<open>
  An \<open>APIRequestContext\<close> is an object of the test framework: the model keeps its identity, a
  number, and the framework hands out a new identity with every context it creates. The two
  arrays of header maps are written at an index and read at an index, so they are modelled as
  partial maps from indices; a \<open>Map<string, string>\<close> is an association list in insertion
  order, \<open>Map.set\<close> being \<^const>\<open>AList.update\<close>.
\<close>

record request_state =
  requestContexts :: "nat list"
  throwAwayContexts :: "nat list"
  requestContextsExtraHeaders :: "int \<Rightarrow> (string \<times> string) list option"
  throwAwayContextsExtraHeaders :: "int \<Rightarrow> (string \<times> string) list option"
  workingRequestContext :: "nat option"
  createdRequestContexts :: nat

definition request_init :: request_state where
  "request_init =
     \<lparr>requestContexts = [], throwAwayContexts = [],
      requestContextsExtraHeaders = (\<lambda>i. None), throwAwayContextsExtraHeaders = (\<lambda>i. None),
      workingRequestContext = None, createdRequestContexts = 0\<rparr>"

text \<open>\<open>array.indexOf(workingRequestContext)\<close>; the variable is \<open>undefined\<close> before the first context.\<close>

definition indexOfWorking :: "nat list \<Rightarrow> nat option \<Rightarrow> int" where
  "indexOfWorking xs working = (case working of None \<Rightarrow> - 1 | Some c \<Rightarrow> indexOf xs c)"

definition workingRequestContextIndex :: "request_state \<Rightarrow> int" where
  "workingRequestContextIndex s = indexOfWorking (requestContexts s) (workingRequestContext s)"

definition updateWorkingRequestContext :: "int \<Rightarrow> (request_state, unit) action" where
  "updateWorkingRequestContext requestContextIndex =
     (\<lambda>s. case js_index (requestContexts s) requestContextIndex of
            None \<Rightarrow> throw (RequestContextNotFound requestContextIndex) s
          | Some requestContext \<Rightarrow> (Inr (), s\<lparr>workingRequestContext := Some requestContext\<rparr>))"

text \<open>\<open>headers[i] ??= new Map(); headers[i].set(key, value)\<close>\<close>

definition setHeader ::
  "(int \<Rightarrow> (string \<times> string) list option) \<Rightarrow> int \<Rightarrow> string \<Rightarrow> string
    \<Rightarrow> (int \<Rightarrow> (string \<times> string) list option)" where
  "setHeader headers i key val =
     headers(i \<mapsto> AList.update key val (case headers i of None \<Rightarrow> [] | Some m \<Rightarrow> m))"

definition putExtraHeader :: "string \<Rightarrow> string \<Rightarrow> request_state \<Rightarrow> request_state" where
  "putExtraHeader key val s =
     (let contextIndex = workingRequestContextIndex s in
      if contextIndex \<ge> 0
      then s\<lparr>requestContextsExtraHeaders :=
               setHeader (requestContextsExtraHeaders s) contextIndex key val\<rparr>
      else
        (let throwAwayContextIndex = indexOfWorking (throwAwayContexts s) (workingRequestContext s) in
         if throwAwayContextIndex \<ge> 0
         then s\<lparr>throwAwayContextsExtraHeaders :=
                  setHeader (throwAwayContextsExtraHeaders s) throwAwayContextIndex key val\<rparr>
         else s))"

text \<open>
  \<open>!extraHeaders || extraHeaders.size == 0 ? undefined : Object.fromEntries(extraHeaders)\<close>:
  the object is given by its entries, and \<open>None\<close> is \<open>undefined\<close>.
\<close>

definition definedHeaders :: "(string \<times> string) list option \<Rightarrow> (string \<times> string) list option" where
  "definedHeaders extraHeaders =
     (case extraHeaders of
        None \<Rightarrow> None
      | Some m \<Rightarrow> if length m = 0 then None else Some m)"

definition getExtraHeaders :: "request_state \<Rightarrow> error + (string \<times> string) list option" where
  "getExtraHeaders s =
     (let contextIndex = workingRequestContextIndex s in
      if contextIndex \<ge> 0 then Inr (definedHeaders (requestContextsExtraHeaders s contextIndex))
      else
        (let throwAwayContextIndex = indexOfWorking (throwAwayContexts s) (workingRequestContext s) in
         if throwAwayContextIndex \<ge> 0
         then Inr (definedHeaders (throwAwayContextsExtraHeaders s throwAwayContextIndex))
         else Inl ExtraHeadersNotFound))"

text \<open>
  \<open>openNewContext\<close>: the context comes from the callback when there is one and from
  \<open>apiRequest().newContext()\<close> otherwise; the callback is documented to create a new context,
  so either way the context is a new object.
\<close>

definition apiRequest_newContext :: "(request_state, nat) action" where
  "apiRequest_newContext =
     (\<lambda>s. (Inr (createdRequestContexts s),
            s\<lparr>createdRequestContexts := Suc (createdRequestContexts s)\<rparr>))"

definition openNewContext :: "(request_state, unit) action" where
  "openNewContext =
     andThen apiRequest_newContext (\<lambda>newContext.
     andThen (modify (\<lambda>s. s\<lparr>requestContexts := requestContexts s @ [newContext]\<rparr>)) (\<lambda>_.
     (\<lambda>s. updateWorkingRequestContext (int (length (requestContexts s)) - 1) s)))"

definition openNewThrowAwayContext :: "(request_state, unit) action" where
  "openNewThrowAwayContext =
     andThen apiRequest_newContext (\<lambda>newContext.
     andThen (modify (\<lambda>s. s\<lparr>throwAwayContexts := throwAwayContexts s @ [newContext]\<rparr>)) (\<lambda>_.
     modify (\<lambda>s. s\<lparr>workingRequestContext := Some newContext\<rparr>)))"

definition switchWorkingContext :: "int \<Rightarrow> (request_state, unit) action" where
  "switchWorkingContext requestContextIndex =
     (\<lambda>s. andThen (expect (requestContextIndex < int (length (requestContexts s)))
                     (ExpectRequestContextNotFound requestContextIndex)) (\<lambda>_.
           andThen (expect (requestContextIndex \<noteq> workingRequestContextIndex s)
                     (ExpectAlreadyWorkingOnContext requestContextIndex)) (\<lambda>_.
           updateWorkingRequestContext requestContextIndex)) s)"

text \<open>
  What a test does with the request helper, call after call, on the module as loaded. A
  call that throws leaves the state it had reached.
\<close>

datatype request_op =
    PutExtraHeader string string
  | OpenNewContext
  | OpenNewThrowAwayContext
  | SwitchWorkingContext int

fun request_exec :: "request_op \<Rightarrow> request_state \<Rightarrow> request_state" where
  "request_exec (PutExtraHeader key val) s = putExtraHeader key val s"
| "request_exec OpenNewContext s = snd (openNewContext s)"
| "request_exec OpenNewThrowAwayContext s = snd (openNewThrowAwayContext s)"
| "request_exec (SwitchWorkingContext i) s = snd (switchWorkingContext i s)"

definition request_run :: "request_op list \<Rightarrow> request_state" where
  "request_run ops = fold request_exec ops request_init"

text \<open>
  The reading of the documentation, to compare \<open>getExtraHeaders\<close> with: the headers put while
  context \<open>c\<close> was the focused one, a later value for a key replacing the earlier one.
\<close>

fun headersPut ::
  "nat \<Rightarrow> request_op list \<Rightarrow> request_state \<Rightarrow> (string \<rightharpoonup> string) \<Rightarrow> (string \<rightharpoonup> string)" where
  "headersPut c [] s h = h"
| "headersPut c (PutExtraHeader key val # ops) s h =
     headersPut c ops (putExtraHeader key val s)
       (if workingRequestContext s = Some c then h(key \<mapsto> val) else h)"
| "headersPut c (op # ops) s h = headersPut c ops (request_exec op s) h"

section \<open>tabDataHelper, frameworkDataHelper and browserHelper\<close>

text \<open>
  The browser of the test framework: \<open>browser.contexts()\<close> lists the open contexts in the
  order of creation, \<open>context.pages()\<close> the open pages of a context in the order of creation.
  Contexts and pages are objects; the model keeps their identities, and a page knows its
  context (\<open>page.context()\<close>). Closing a page or a context takes it out of its list. The calls
  into the framework are taken to succeed.

  \<open>pageTypes\<close> is an array of arrays of strings. The outer array is pushed to, spliced and
  read at an index; an inner array is only written and read at an index, so it is a partial
  map from indices (writing at any index defines that entry, reading an entry never written
  gives \<open>undefined\<close>).
\<close>

record page =
  page_id :: nat
  page_context :: nat

record browser_state =
  contexts :: "nat list"
  pages :: "nat \<Rightarrow> page list"
  workingTab :: "page option"
  pageTypes :: "(int \<Rightarrow> string option) list"
  createdContexts :: nat
  createdPages :: nat

definition browser_init :: browser_state where
  "browser_init =
     \<lparr>contexts = [], pages = (\<lambda>context. []), workingTab = None, pageTypes = [],
      createdContexts = 0, createdPages = 0\<rparr>"

subsection \<open>The framework's calls\<close>

definition browser_newContext :: "(browser_state, nat) action" where
  "browser_newContext =
     (\<lambda>s. (Inr (createdContexts s),
            s\<lparr>contexts := contexts s @ [createdContexts s],
              pages := (pages s)(createdContexts s := []),
              createdContexts := Suc (createdContexts s)\<rparr>))"

definition context_newPage :: "nat \<Rightarrow> (browser_state, page) action" where
  "context_newPage context =
     (\<lambda>s. let newPage = \<lparr>page_id = createdPages s, page_context = context\<rparr>
           in (Inr newPage,
               s\<lparr>pages := (pages s)(context := pages s context @ [newPage]),
                 createdPages := Suc (createdPages s)\<rparr>))"

definition page_close :: "page \<Rightarrow> browser_state \<Rightarrow> browser_state" where
  "page_close p s =
     s\<lparr>pages := (pages s)(page_context p := removeAll p (pages s (page_context p)))\<rparr>"

definition context_close :: "nat \<Rightarrow> browser_state \<Rightarrow> browser_state" where
  "context_close context s =
     s\<lparr>contexts := removeAll context (contexts s), pages := (pages s)(context := [])\<rparr>"

subsection \<open>tabDataHelper\<close>

definition contextPageTypes :: "int \<Rightarrow> (browser_state, int \<Rightarrow> string option) action" where
  "contextPageTypes contextIndex =
     (\<lambda>s. case js_index (pageTypes s) contextIndex of
            None \<Rightarrow> throw (NoPageTypesFound contextIndex) s
          | Some types \<Rightarrow> ret types s)"

definition pageType :: "int \<Rightarrow> int \<Rightarrow> (browser_state, string option) action" where
  "pageType contextIndex tabIndex =
     andThen (contextPageTypes contextIndex) (\<lambda>types. ret (types tabIndex))"

definition initializeContextPageTypes :: "(browser_state, unit) action" where
  "initializeContextPageTypes = modify (\<lambda>s. s\<lparr>pageTypes := pageTypes s @ [\<lambda>tabIndex. None]\<rparr>)"

definition updatePageType :: "int \<Rightarrow> int \<Rightarrow> string \<Rightarrow> (browser_state, unit) action" where
  "updatePageType contextIndex tabIndex newType =
     andThen (contextPageTypes contextIndex) (\<lambda>types.
     modify (\<lambda>s. s\<lparr>pageTypes := (pageTypes s)[nat contextIndex := types(tabIndex \<mapsto> newType)]\<rparr>))"

definition initializePageType :: "int \<Rightarrow> int \<Rightarrow> (browser_state, unit) action" where
  "initializePageType contextIndex tabIndex =
     andThen (contextPageTypes contextIndex) (\<lambda>types.
     modify (\<lambda>s. s\<lparr>pageTypes := (pageTypes s)[nat contextIndex := types(tabIndex \<mapsto> ''Blank'')]\<rparr>))"

definition removeContextPageTypes :: "int \<Rightarrow> (browser_state, unit) action" where
  "removeContextPageTypes contextIndex =
     modify (\<lambda>s. s\<lparr>pageTypes := splice1 (pageTypes s) contextIndex\<rparr>)"

definition resetPageTypes :: "(browser_state, unit) action" where
  "resetPageTypes = modify (\<lambda>s. s\<lparr>pageTypes := []\<rparr>)"

subsection \<open>frameworkDataHelper\<close>

definition getContext :: "int \<Rightarrow> (browser_state, nat) action" where
  "getContext contextIndex =
     (\<lambda>s. case js_index (contexts s) contextIndex of
            None \<Rightarrow> throw (ContextDoesNotExist contextIndex) s
          | Some context \<Rightarrow> ret context s)"

definition getPage :: "int \<Rightarrow> int \<Rightarrow> (browser_state, page) action" where
  "getPage contextIndex pageIndex =
     andThen (getContext contextIndex) (\<lambda>context.
     (\<lambda>s. case js_index (pages s context) pageIndex of
            None \<Rightarrow> throw (PageDoesNotExist pageIndex contextIndex) s
          | Some p \<Rightarrow> ret p s))"

subsection \<open>browserHelper\<close>

text \<open>\<open>workingTab.context()\<close> throws a \<open>TypeError\<close> while \<open>workingTab\<close> is still undefined.\<close>

definition workingContext :: "(browser_state, nat) action" where
  "workingContext =
     (\<lambda>s. case workingTab s of None \<Rightarrow> throw TypeError s | Some tab \<Rightarrow> ret (page_context tab) s)"

definition workingContextIndex :: "(browser_state, int) action" where
  "workingContextIndex =
     andThen workingContext (\<lambda>context. (\<lambda>s. ret (indexOf (contexts s) context) s))"

definition workingTabIndex :: "(browser_state, int) action" where
  "workingTabIndex =
     andThen workingContext (\<lambda>context.
     (\<lambda>s. case workingTab s of
            None \<Rightarrow> throw TypeError s
          | Some tab \<Rightarrow> ret (indexOf (pages s context) tab) s))"

definition latestContextIndex :: "(browser_state, int) action" where
  "latestContextIndex = (\<lambda>s. ret (int (length (contexts s)) - 1) s)"

definition latestTabIndex :: "int \<Rightarrow> (browser_state, int) action" where
  "latestTabIndex contextIndex =
     andThen (getContext contextIndex) (\<lambda>context.
     (\<lambda>s. ret (int (length (pages s context)) - 1) s))"

definition updateWorkingTab :: "int \<Rightarrow> int \<Rightarrow> (browser_state, unit) action" where
  "updateWorkingTab contextIndex tabIndex =
     andThen (getPage contextIndex tabIndex) (\<lambda>tab. modify (\<lambda>s. s\<lparr>workingTab := Some tab\<rparr>))"

text \<open>
  The callbacks that the five operations register with \<open>addStep\<close>. \<open>errorListener.attachTo\<close>
  only registers listeners on the new page and has no part in this state.
\<close>

definition openNewTabInCurrentContext :: "string \<Rightarrow> (browser_state, unit) action" where
  "openNewTabInCurrentContext currentPageType =
     andThen workingContextIndex (\<lambda>contextIndex.
     andThen workingTabIndex (\<lambda>tabIndex.
     andThen (updatePageType contextIndex tabIndex currentPageType) (\<lambda>_.
     andThen workingContext (\<lambda>context.
     andThen (context_newPage context) (\<lambda>newPage.
     andThen workingContextIndex (\<lambda>contextIndex.
     andThen workingContextIndex (\<lambda>contextIndex'.
     andThen (latestTabIndex contextIndex') (\<lambda>tabIndex.
     andThen (initializePageType contextIndex tabIndex) (\<lambda>_.
     andThen workingContextIndex (\<lambda>contextIndex.
     andThen workingContextIndex (\<lambda>contextIndex'.
     andThen (latestTabIndex contextIndex') (\<lambda>tabIndex.
     updateWorkingTab contextIndex tabIndex))))))))))))"

text \<open>
  \<open>openNewTabInNewContext\<close>: \<open>if (currentPageType)\<close> is false for a missing and for an empty
  page type. The context comes from the callback when there is one, which is documented to
  create it, and from \<open>browser.newContext()\<close> otherwise: either way a new context of this
  browser.
\<close>

definition openNewTabInNewContext :: "string option \<Rightarrow> (browser_state, unit) action" where
  "openNewTabInNewContext currentPageType =
     andThen (case currentPageType of
                None \<Rightarrow> ret ()
              | Some t \<Rightarrow>
                  if t = [] then ret ()
                  else andThen workingContextIndex (\<lambda>contextIndex.
                       andThen workingTabIndex (\<lambda>tabIndex.
                       updatePageType contextIndex tabIndex t))) (\<lambda>_.
     andThen browser_newContext (\<lambda>newContext.
     andThen (context_newPage newContext) (\<lambda>newTab.
     andThen initializeContextPageTypes (\<lambda>_.
     andThen latestContextIndex (\<lambda>contextIndex.
     andThen (initializePageType contextIndex 0) (\<lambda>_.
     andThen latestContextIndex (\<lambda>contextIndex.
     updateWorkingTab contextIndex 0)))))))"

text \<open>
  \<open>a === workingContextIndex() && b === workingTabIndex()\<close> evaluates its second operand
  only when the first holds.
\<close>

definition isWorkingTab :: "int \<Rightarrow> int \<Rightarrow> (browser_state, bool) action" where
  "isWorkingTab contextIndex tabIndex =
     andThen workingContextIndex (\<lambda>workingContextIndex'.
     if contextIndex = workingContextIndex'
     then andThen workingTabIndex (\<lambda>workingTabIndex'. ret (tabIndex = workingTabIndex'))
     else ret False)"

definition switchWorkingTab :: "int \<Rightarrow> int \<Rightarrow> string \<Rightarrow> string \<Rightarrow> (browser_state, unit) action" where
  "switchWorkingTab contextIndex tabIndex currentPageType nextPageType =
     andThen latestContextIndex (\<lambda>latest.
     andThen (expect (contextIndex \<le> latest) (ExpectContextNotFound contextIndex)) (\<lambda>_.
     andThen (latestTabIndex contextIndex) (\<lambda>latestTab.
     andThen (expect (tabIndex \<le> latestTab) (ExpectTabNotFound contextIndex tabIndex)) (\<lambda>_.
     andThen (isWorkingTab contextIndex tabIndex) (\<lambda>alreadyWorkingOnTheTab.
     andThen (expect (\<not> alreadyWorkingOnTheTab)
                (ExpectAlreadyWorkingOnTab contextIndex tabIndex)) (\<lambda>_.
     andThen (pageType contextIndex tabIndex) (\<lambda>actualPageType.
     andThen (expect (actualPageType = Some nextPageType)
                (ExpectPageType actualPageType nextPageType)) (\<lambda>_.
     andThen workingContextIndex (\<lambda>workingContextIndex'.
     andThen workingTabIndex (\<lambda>workingTabIndex'.
     andThen (updatePageType workingContextIndex' workingTabIndex' currentPageType) (\<lambda>_.
     updateWorkingTab contextIndex tabIndex)))))))))))"

text \<open>\<open>for (const page of context.pages()) await page.close()\<close>\<close>

definition closePages :: "nat \<Rightarrow> (browser_state, unit) action" where
  "closePages context = modify (\<lambda>s. fold page_close (pages s context) s)"

definition closeContext :: "int \<Rightarrow> (browser_state, unit) action" where
  "closeContext contextIndex =
     andThen (getContext contextIndex) (\<lambda>context.
     andThen workingContextIndex (\<lambda>workingContextIndex'.
     andThen (expect (contextIndex \<noteq> workingContextIndex')
                (ExpectNotWorkingContext contextIndex)) (\<lambda>_.
     andThen (closePages context) (\<lambda>_.
     andThen (modify (context_close context)) (\<lambda>_.
     removeContextPageTypes contextIndex)))))"

definition closeTab :: "int \<Rightarrow> int \<Rightarrow> (browser_state, unit) action" where
  "closeTab contextIndex tabIndex =
     andThen (getPage contextIndex tabIndex) (\<lambda>p.
     andThen (isWorkingTab contextIndex tabIndex) (\<lambda>attemptingToCloseWorkingTab.
     andThen (expect (\<not> attemptingToCloseWorkingTab)
                (ExpectNotWorkingTab contextIndex tabIndex)) (\<lambda>_.
     andThen (modify (page_close p)) (\<lambda>_.
     removeContextPageTypes contextIndex))))"

text \<open>
  What a test does with the browser helper, step after step, starting with a browser that
  has no context. A step that throws stops the chain (see \<open>addStep\<close>); the run keeps the state
  it had reached and tells whether every step completed.
\<close>

datatype browser_op =
    OpenNewTabInCurrentContext string
  | OpenNewTabInNewContext "string option"
  | SwitchWorkingTab int int string string
  | CloseContext int
  | CloseTab int int

fun browser_step :: "browser_op \<Rightarrow> (browser_state, unit) action" where
  "browser_step (OpenNewTabInCurrentContext t) = openNewTabInCurrentContext t"
| "browser_step (OpenNewTabInNewContext t) = openNewTabInNewContext t"
| "browser_step (SwitchWorkingTab c t cur nxt) = switchWorkingTab c t cur nxt"
| "browser_step (CloseContext c) = closeContext c"
| "browser_step (CloseTab c t) = closeTab c t"

fun browser_run :: "browser_op list \<Rightarrow> (browser_state, unit) action" where
  "browser_run [] = ret ()"
| "browser_run (op # ops) = andThen (browser_step op) (\<lambda>_. browser_run ops)"

text \<open>
  For the proofs: what holds of the request helper's state after any calls, the header map that
  belongs to a context, and the entries of an object.
\<close>

definition request_inv :: "request_state \<Rightarrow> bool" where
  "request_inv s \<longleftrightarrow>
     (\<forall>c\<in>set (requestContexts s) \<union> set (throwAwayContexts s). c < createdRequestContexts s)
     \<and> (\<forall>i. requestContextsExtraHeaders s i \<noteq> None \<longrightarrow> 0 \<le> i \<and> i < int (length (requestContexts s)))
     \<and> (\<forall>i. throwAwayContextsExtraHeaders s i \<noteq> None \<longrightarrow> 0 \<le> i \<and> i < int (length (throwAwayContexts s)))
     \<and> (\<forall>c. workingRequestContext s = Some c \<longrightarrow> c \<in> set (requestContexts s) \<union> set (throwAwayContexts s))
     \<and> set (requestContexts s) \<inter> set (throwAwayContexts s) = {}"

definition headersOf :: "request_state \<Rightarrow> nat \<Rightarrow> (string \<times> string) list option" where
  "headersOf s c =
     (if c \<in> set (requestContexts s)
      then requestContextsExtraHeaders s (indexOf (requestContexts s) c)
      else if c \<in> set (throwAwayContexts s)
      then throwAwayContextsExtraHeaders s (indexOf (throwAwayContexts s) c)
      else None)"

definition entries :: "(string \<times> string) list option \<Rightarrow> (string \<rightharpoonup> string)" where
  "entries extraHeaders = (case extraHeaders of None \<Rightarrow> Map.empty | Some m \<Rightarrow> map_of m)"

text \<open>States of the browser helper for the examples.\<close>

definition example_two_contexts :: "browser_op list" where
  "example_two_contexts =
     [OpenNewTabInNewContext None, OpenNewTabInCurrentContext ''Home'',
      OpenNewTabInNewContext (Some ''Cart'')]"

definition example_tab_closed :: "browser_op list" where
  "example_tab_closed =
     [OpenNewTabInNewContext None, OpenNewTabInCurrentContext ''Home'', CloseTab 0 0]"

text \<open>
  For the proofs: the browser and the working tab are consistent (identities are not
  reused, a page lies in the list of its own context, the working tab is open), and a page
  type is recorded for every open tab.
\<close>

definition browser_wf :: "browser_state \<Rightarrow> bool" where
  "browser_wf s \<longleftrightarrow>
     distinct (contexts s)
     \<and> (\<forall>k\<in>set (contexts s). k < createdContexts s)
     \<and> (\<forall>k. \<forall>p\<in>set (pages s k). page_context p = k \<and> page_id p < createdPages s)
     \<and> (\<forall>k. distinct (pages s k))
     \<and> (\<forall>tab. workingTab s = Some tab \<longrightarrow>
           page_context tab \<in> set (contexts s) \<and> tab \<in> set (pages s (page_context tab)))"

definition pageTypesRecorded :: "browser_state \<Rightarrow> bool" where
  "pageTypesRecorded s \<longleftrightarrow>
     length (pageTypes s) = length (contexts s)
     \<and> (\<forall>c < length (contexts s). \<forall>t < length (pages s (contexts s ! c)).
           (pageTypes s ! c) (int t) \<noteq> None)"

fun withoutCloseTab :: "browser_op list \<Rightarrow> bool" where
  "withoutCloseTab [] = True"
| "withoutCloseTab (CloseTab c t # ops) = False"
| "withoutCloseTab (op # ops) = withoutCloseTab ops"

section \<open>Properties: testDataHelper\<close>

lemma js_index_Some: "js_index xs i = Some x \<longleftrightarrow> 0 \<le> i \<and> i < int (length xs) \<and> xs ! nat i = x"
  by (auto simp: js_index_def)

lemma js_index_None: "js_index xs i = None \<longleftrightarrow> i < 0 \<or> int (length xs) \<le> i"
  by (auto simp: js_index_def)

lemma fold_pushTestData:
  "fold (\<lambda>(k, v). pushTestData k v) pushes td key =
     (if pushedUnder key pushes = [] then td key
      else Some ((case td key of None \<Rightarrow> [] | Some vs \<Rightarrow> vs) @ pushedUnder key pushes))"
proof (induction pushes arbitrary: td)
  case Nil
  show ?case by (simp add: pushedUnder_def)
next
  case (Cons p ps)
  obtain k v where p: "p = (k, v)" by (cases p)
  show ?case
    using Cons.IH [of "pushTestData k v td"]
    by (auto simp: p pushedUnder_def pushTestData_def split: option.splits)
qed

lemma pushAll_lookup:
  "pushAll pushes key = (if pushedUnder key pushes = [] then None else Some (pushedUnder key pushes))"
  by (simp add: pushAll_def resetTestData_def fold_pushTestData)

text \<open>
  C8. After any sequence of \<open>pushTestData\<close> calls, \<open>getTestData key index\<close> returns the
  \<open>index\<close>-th value pushed under \<open>key\<close> when that value is a non-empty string; it throws
  when the key was never pushed, when the index is out of bounds for the key's values, and
  when the value stored there is the empty string, which is therefore unretrievable.
\<close>

theorem getTestData_pushed:
  "(0 \<le> index \<and> index < int (length (pushedUnder key pushes))
      \<and> pushedUnder key pushes ! nat index \<noteq> []
     \<longrightarrow> getTestData key index (pushAll pushes) = Inr (pushedUnder key pushes ! nat index))
   \<and> (key \<notin> fst ` set pushes
     \<longrightarrow> getTestData key index (pushAll pushes) = Inl (NoTestDataFound key index))
   \<and> (index < 0 \<or> int (length (pushedUnder key pushes)) \<le> index
     \<longrightarrow> getTestData key index (pushAll pushes) = Inl (NoTestDataFound key index))
   \<and> (0 \<le> index \<and> index < int (length (pushedUnder key pushes))
      \<and> pushedUnder key pushes ! nat index = []
     \<longrightarrow> getTestData key index (pushAll pushes) = Inl (NoTestDataFound key index))"
proof -
  have never: "pushedUnder key pushes = []" if "key \<notin> fst ` set pushes"
    using that by (force simp: pushedUnder_def filter_empty_conv)
  show ?thesis
    by (auto simp: getTestData_def pushAll_lookup js_index_def never split: option.splits)
qed

theorem getTestData_pushed_witness:
  "getTestData ''user'' 1 (pushAll [(''user'', ''ann''), (''id'', ''7''), (''user'', ''bob'')]) = Inr ''bob''
   \<and> getTestData ''role'' 0 (pushAll [(''user'', ''ann'')]) = Inl (NoTestDataFound ''role'' 0)
   \<and> getTestData ''user'' 1 (pushAll [(''user'', ''ann'')]) = Inl (NoTestDataFound ''user'' 1)
   \<and> getTestData ''user'' 0 (pushAll [(''user'', [])]) = Inl (NoTestDataFound ''user'' 0)"
  using getTestData_pushed [of 1 "''user''" "[(''user'', ''ann''), (''id'', ''7''), (''user'', ''bob'')]"]
    getTestData_pushed [of 0 "''role''" "[(''user'', ''ann'')]"]
    getTestData_pushed [of 1 "''user''" "[(''user'', ''ann'')]"]
    getTestData_pushed [of 0 "''user''" "[(''user'', [])]"]
  by (simp add: pushedUnder_def)

section \<open>Properties: stepSequenceHelper, stacks and rows\<close>


















lemma sublist_newline_Cons:
  "sublist u (newline # s) \<Longrightarrow> newline \<notin> set u \<Longrightarrow> u \<noteq> [] \<Longrightarrow> sublist u s"
  by (cases u) (auto simp: sublist_Cons_right)










section \<open>Properties: stepSequenceHelper, the chain\<close>

lemma addSteps_snoc:
  "addSteps env (regs @ [(ms, title, cb)]) = addStep env ms title cb (addSteps env regs)"
  by (simp add: addSteps_def)

lemma traceAll_snoc:
  "traceAll (regs @ [(ms, title, cb)]) = traceAll regs @ [(ms, title, traced (length regs) cb)]"
  by (simp add: traceAll_def enumerate_append_eq)

lemma events_Suc: "events (Suc m) = events m @ [Begin m, End m]"
  by (simp add: events_def)

lemma runSequentially_snoc:
  "runSequentially i (cbs @ [cb]) w =
     (case runSequentially i cbs w of
        Completed w' \<Rightarrow>
          (case cb w' of
             Fulfilled w'' \<Rightarrow> Completed w''
           | Rejected (NonError v) w'' \<Rightarrow> Completed w''
           | Rejected (ErrorObj e) w'' \<Rightarrow> Stopped (i + length cbs) e w'')
      | Stopped k e w' \<Rightarrow> Stopped k e w')"
  by (induction cbs arbitrary: i w) (auto split: settled.splits thrown.splits run.splits)

lemma runSequentially_Stopped_bounds:
  "runSequentially i cbs w = Stopped k e w' \<Longrightarrow> i \<le> k \<and> k < i + length cbs"
  by (induction cbs arbitrary: i w) (fastforce split: settled.splits thrown.splits)+

lemma catchHandler_ErrorObj:
  "\<exists>e'. catchHandler env ms (ErrorObj e) = Inl (ErrorObj e')
     \<and> ((\<exists>st. e' = e\<lparr>stack := st\<rparr>) \<or> e' = new_Error env found_0_rows
          \<or> e' = new_Error env found_multiple_rows)"
proof -
  have same: "\<exists>st. e = e\<lparr>stack := st\<rparr>"
    by (rule exI [of _ "stack e"]) simp
  show ?thesis
    using same
    by (auto simp: catchHandler_def getTestCallRowInStack_def Let_def
        split: option.splits sum.splits list.splits if_splits)
qed

lemma handedOn_snoc:
  "handedOn env (mss @ [ms]) e =
     (case catchHandler env ms (ErrorObj (handedOn env mss e)) of
        Inl (ErrorObj e'') \<Rightarrow> e'' | _ \<Rightarrow> handedOn env mss e)"
  by (simp add: handedOn_def split: sum.splits thrown.splits)

lemma catchHandler_handedOn:
  "catchHandler env ms (ErrorObj (handedOn env mss e)) = Inl (ErrorObj (handedOn env (mss @ [ms]) e))"
  using catchHandler_ErrorObj [of env ms "handedOn env mss e"]
  by (auto simp: handedOn_snoc)

lemma addStep_Fulfilled:
  "stepSequence w = Fulfilled w' \<Longrightarrow>
   addStep env ms title cb stepSequence w =
     (case cb w' of
        Fulfilled w'' \<Rightarrow> Fulfilled w''
      | Rejected x w'' \<Rightarrow>
          (case catchHandler env ms x of Inl x' \<Rightarrow> Rejected x' w'' | Inr _ \<Rightarrow> Fulfilled w''))"
  by (simp add: addStep_def promise_then_def promise_catch_def test_step_def
      split: settled.splits)

lemma addStep_Rejected:
  "stepSequence w = Rejected x w' \<Longrightarrow>
   addStep env ms title cb stepSequence w =
     (case catchHandler env ms x of Inl x' \<Rightarrow> Rejected x' w' | Inr _ \<Rightarrow> Fulfilled w')"
  by (simp add: addStep_def promise_then_def promise_catch_def)

lemma catchHandler_NonError: "catchHandler env ms (NonError v) = Inr ()"
  by (simp add: catchHandler_def)

lemma handedOn_single:
  "catchHandler env ms (ErrorObj e) = Inl (ErrorObj (handedOn env [ms] e))"
  using catchHandler_handedOn [of env ms "[]" e] by (simp add: handedOn_def)

lemma traced_apply:
  "traced i cb (w, log) =
     (case cb w of
        Fulfilled w' \<Rightarrow> Fulfilled (w', log @ [Begin i, End i])
      | Rejected x w' \<Rightarrow> Rejected x (w', log @ [Begin i, End i]))"
  by (simp add: traced_def)

lemma chain_trace:
  "addSteps env (traceAll regs) (w, log) =
     (case runSequentially 0 (map (\<lambda>(ms, title, cb). cb) regs) w of
        Completed w' \<Rightarrow> Fulfilled (w', log @ events (length regs))
      | Stopped k e w' \<Rightarrow>
          Rejected (ErrorObj (handedOn env (drop k (map fst regs)) e)) (w', log @ events (Suc k)))"
proof (induction regs rule: rev_induct)
  case Nil
  show ?case by (simp add: addSteps_def traceAll_def resetStepSequence_def resolve_def events_def)
next
  case (snoc r regs)
  obtain ms title cb where r: "r = (ms, title, cb)" by (cases r)
  show ?case
  proof (cases "runSequentially 0 (map (\<lambda>(ms, title, cb). cb) regs) w")
    case (Completed w')
    with snoc.IH have chain:
      "addSteps env (traceAll regs) (w, log) = Fulfilled (w', log @ events (length regs))"
      by simp
    show ?thesis
    proof (cases "cb w'")
      case (Fulfilled w'')
      then show ?thesis
        using Completed
        by (simp add: r traceAll_snoc addSteps_snoc runSequentially_snoc
            addStep_Fulfilled [where stepSequence = "addSteps env (traceAll regs)" and w = "(w, log)", OF chain] traced_apply events_Suc)
    next
      case (Rejected x w'')
      show ?thesis
      proof (cases x)
        case (NonError v)
        then show ?thesis
          using Completed Rejected
          by (simp add: r traceAll_snoc addSteps_snoc runSequentially_snoc
              addStep_Fulfilled [where stepSequence = "addSteps env (traceAll regs)" and w = "(w, log)", OF chain] traced_apply events_Suc catchHandler_NonError)
      next
        case (ErrorObj e)
        then show ?thesis
          using Completed Rejected
          by (simp add: r traceAll_snoc addSteps_snoc runSequentially_snoc
              addStep_Fulfilled [where stepSequence = "addSteps env (traceAll regs)" and w = "(w, log)", OF chain] traced_apply events_Suc handedOn_single)
      qed
    qed
  next
    case (Stopped k e w')
    then have k: "k < length regs"
      using runSequentially_Stopped_bounds [of 0 _ w k e w'] by fastforce
    with snoc.IH Stopped have chain:
      "addSteps env (traceAll regs) (w, log) =
         Rejected (ErrorObj (handedOn env (drop k (map fst regs)) e)) (w', log @ events (Suc k))"
      by simp
    show ?thesis
      using Stopped k
      by (simp add: r traceAll_snoc addSteps_snoc runSequentially_snoc
          addStep_Rejected [where stepSequence = "addSteps env (traceAll regs)" and w = "(w, log)", OF chain] catchHandler_handedOn)
  qed
qed

lemma handedOn_message:
  "(\<exists>st. handedOn env mss e = e\<lparr>stack := st\<rparr>)
     \<or> message (handedOn env mss e) = found_0_rows
     \<or> message (handedOn env mss e) = found_multiple_rows"
proof (induction mss rule: rev_induct)
  case Nil
  have "e = e\<lparr>stack := stack e\<rparr>" by simp
  then show ?case unfolding handedOn_def foldl_Nil by blast
next
  case (snoc ms mss)
  obtain e' where h: "catchHandler env ms (ErrorObj (handedOn env mss e)) = Inl (ErrorObj e')"
    and e': "(\<exists>st. e' = (handedOn env mss e)\<lparr>stack := st\<rparr>) \<or> e' = new_Error env found_0_rows
          \<or> e' = new_Error env found_multiple_rows"
    using catchHandler_ErrorObj [of env ms "handedOn env mss e"] by blast
  have eq: "handedOn env (mss @ [ms]) e = e'"
    using h by (simp add: handedOn_snoc)
  show ?case
    using snoc.IH e' unfolding eq
    by (auto simp: new_Error_def)
qed

lemma catchHandler_untouched:
  "stack e = None \<or> \<not> sublist (import_meta_url env) (the (stack e)) \<Longrightarrow>
   catchHandler env ms (ErrorObj e) = Inl (ErrorObj e)"
  by (auto simp: catchHandler_def split: option.splits)

lemma handedOn_untouched:
  "stack e = None \<or> \<not> sublist (import_meta_url env) (the (stack e)) \<Longrightarrow>
   handedOn env mss e = e"
  by (induction mss rule: rev_induct) (simp_all add: handedOn_def catchHandler_untouched)


text \<open>
  C1 (as amended). The callbacks of the registered steps run one after the other in the
  order of registration: the log of the chain is \<open>Begin 0, End 0, Begin 1, End 1, ...\<close>, so a
  callback begins only when every callback registered before it has completed. When the
  callback of step \<open>k\<close> rejects with an \<open>Error\<close>, no callback registered later runs, and the
  chain rejects with an \<open>Error\<close>: that error, its stack possibly rewritten, or the \<open>Error\<close>
  that \<open>getTestCallRowInStack\<close> throws while a catch handler rewrites the stack. It is that
  error unchanged when its stack does not mention the helper module.
\<close>

theorem steps_run_in_registration_order:
  "(case runSequentially 0 (map (\<lambda>(ms, title, cb). cb) regs) w of
      Completed w' \<Rightarrow>
        addSteps env (traceAll regs) (w, []) = Fulfilled (w', events (length regs))
    | Stopped k e w' \<Rightarrow>
        k < length regs
        \<and> (\<exists>e'. addSteps env (traceAll regs) (w, []) = Rejected (ErrorObj e') (w', events (Suc k))
               \<and> ((\<exists>st. e' = e\<lparr>stack := st\<rparr>) \<or> message e' = found_0_rows
                    \<or> message e' = found_multiple_rows)
               \<and> (stack e = None \<or> \<not> sublist (import_meta_url env) (the (stack e))
                    \<longrightarrow> e' = e)))"
proof (cases "runSequentially 0 (map (\<lambda>(ms, title, cb). cb) regs) w")
  case (Completed w')
  then show ?thesis
    using chain_trace [of env regs w "[]"] by simp
next
  case (Stopped k e w')
  have k: "k < length regs"
    using runSequentially_Stopped_bounds [OF Stopped] by simp
  have chain: "addSteps env (traceAll regs) (w, []) =
      Rejected (ErrorObj (handedOn env (drop k (map fst regs)) e)) (w', events (Suc k))"
    using chain_trace [of env regs w "[]"] Stopped by simp
  show ?thesis
    using Stopped k chain handedOn_message [of env "drop k (map fst regs)" e]
      handedOn_untouched [of e env "drop k (map fst regs)"]
    by auto
qed

theorem steps_run_in_registration_order_witness:
  "addSteps example_env
     (traceAll [(Some example_call_stack, ''open'', \<lambda>w::nat. Fulfilled (w + 1)),
                (Some example_call_stack, ''log in'',
                   \<lambda>w. Rejected (ErrorObj \<lparr>message = ''boom'', stack = None\<rparr>) (w + 10)),
                (Some example_call_stack, ''log out'', \<lambda>w. Fulfilled (w + 100))])
     (0, [])
   = Rejected (ErrorObj \<lparr>message = ''boom'', stack = None\<rparr>)
       (11, [Begin 0, End 0, Begin 1, End 1])"
  using steps_run_in_registration_order
    [where env = example_env and w = "0::nat" and regs =
         "[(Some example_call_stack, ''open'', \<lambda>w::nat. Fulfilled (w + 1)),
          (Some example_call_stack, ''log in'',
             \<lambda>w. Rejected (ErrorObj \<lparr>message = ''boom'', stack = None\<rparr>) (w + 10)),
          (Some example_call_stack, ''log out'', \<lambda>w. Fulfilled (w + 100))]"]
  by (auto simp: events_def)

text \<open>
  C1 as stated fails: a step is registered from a test that reaches the page object through
  a function of the same spec file, so that the stack at \<open>addStep\<close> holds two \<open>.spec.ts\<close>
  rows. Its callback rejects with the error \<open>boom\<close>; the chain rejects with another error,
  the one \<open>getTestCallRowInStack\<close> throws.
\<close>

theorem chain_rejects_with_other_error:
  "addSteps example_env
     [(Some example_call_stack_nested, ''open'', \<lambda>w::nat. Rejected (ErrorObj example_error) w)] 0
   = Rejected (ErrorObj (new_Error example_env found_multiple_rows)) 0
   \<and> message (new_Error example_env found_multiple_rows) \<noteq> message example_error"
  by code_simp












text \<open>
  The \<open>Error\<close> that reaches the end of the chain need not be the one thrown in the handler
  of the failing step. In the example the stack captured at the call of the failing step
  holds two matching rows and its handler throws \<open>Found multiple rows ...\<close>; with a step
  registered after it, the handler of that step runs on this \<open>Error\<close>, finds no matching row
  in its stack and throws \<open>Found 0 rows ...\<close>.
\<close>

lemma later_handler_replaces_guard_error:
  "addSteps example_env
     [(Some example_call_stack_nested, ''log in'', \<lambda>w::nat. Rejected (ErrorObj example_error) (w + 10))]
     0 = Rejected (ErrorObj (new_Error example_env found_multiple_rows)) 10
   \<and> addSteps example_env
     [(Some example_call_stack_nested, ''log in'', \<lambda>w::nat. Rejected (ErrorObj example_error) (w + 10)),
      (Some example_call_stack, ''log out'', \<lambda>w. Fulfilled (w + 100))]
     0 = Rejected (ErrorObj (new_Error example_env found_0_rows)) 10
   \<and> found_0_rows \<noteq> found_multiple_rows"
  by code_simp



text \<open>
  C10. When the callback of a step rejects with a value that is not an \<open>Error\<close>, the catch
  handler returns normally: the chain is fulfilled, and the callback of a step added next runs,
  in the world the failing callback left.
\<close>

theorem non_error_rejection_is_swallowed:
  assumes "stepSequence w = Fulfilled w1" and "callback w1 = Rejected (NonError v) w2"
  shows "addStep env ms title callback stepSequence w = Fulfilled w2
    \<and> addStep env ms' title' callback' (addStep env ms title callback stepSequence) w =
        (case callback' w2 of
           Fulfilled w3 \<Rightarrow> Fulfilled w3
         | Rejected x w3 \<Rightarrow>
             (case catchHandler env ms' x of Inl x' \<Rightarrow> Rejected x' w3 | Inr _ \<Rightarrow> Fulfilled w3))"
proof -
  have first: "addStep env ms title callback stepSequence w = Fulfilled w2"
    using assms by (simp add: addStep_Fulfilled [where w' = w1] catchHandler_NonError)
  show ?thesis
    using first
      addStep_Fulfilled [where stepSequence = "addStep env ms title callback stepSequence"
        and w = w and w' = w2 and env = env and ms = ms' and title = title' and cb = callback']
    by simp
qed

theorem non_error_rejection_is_swallowed_witness:
  "addStep example_env None ''first'' (\<lambda>w::nat. Rejected (NonError ''not an Error'') (w + 1)) resolve 0
     = Fulfilled 1
   \<and> addStep example_env None ''second'' (\<lambda>w::nat. Fulfilled (w + 10))
       (addStep example_env None ''first'' (\<lambda>w. Rejected (NonError ''not an Error'') (w + 1)) resolve) 0
     = Fulfilled 11"
  using non_error_rejection_is_swallowed
    [where stepSequence = resolve and w = "0::nat" and ?w1.0 = 0 and ?w2.0 = 1
      and callback = "\<lambda>w. Rejected (NonError ''not an Error'') (w + 1)" and v = "''not an Error''"
      and env = example_env and ms = None and title = "''first''" and ms' = None
      and title' = "''second''" and callback' = "\<lambda>w. Fulfilled (w + 10)"]
  by (simp add: resolve_def)

section \<open>Properties: requestHelper\<close>

lemma indexOf_ge0_iff: "0 \<le> indexOf xs x \<longleftrightarrow> x \<in> set xs"
  by (induction xs) (auto simp: Let_def)

lemma indexOf_notin: "x \<notin> set xs \<Longrightarrow> indexOf xs x = - 1"
  by (induction xs) (auto simp: Let_def)

lemma indexOf_nth: "x \<in> set xs \<Longrightarrow> indexOf xs x < int (length xs) \<and> xs ! nat (indexOf xs x) = x"
proof (induction xs)
  case Nil
  then show ?case by simp
next
  case (Cons y ys)
  show ?case
  proof (cases "y = x")
    case True
    then show ?thesis by simp
  next
    case False
    with Cons have "x \<in> set ys" by simp
    then have "0 \<le> indexOf ys x" "indexOf ys x < int (length ys)" "ys ! nat (indexOf ys x) = x"
      using Cons.IH indexOf_ge0_iff [of ys x] by auto
    with False show ?thesis by (simp add: Let_def nat_add_distrib)
  qed
qed

lemma indexOf_append: "x \<in> set xs \<Longrightarrow> indexOf (xs @ ys) x = indexOf xs x"
  by (induction xs) (auto simp: Let_def)

lemma indexOf_append_new: "x \<notin> set xs \<Longrightarrow> indexOf (xs @ [x]) x = int (length xs)"
  by (induction xs) (auto simp: Let_def)

lemma indexOf_inj:
  assumes x: "x \<in> set xs" and eq: "indexOf xs x = indexOf xs y"
  shows "x = y"
proof -
  have "0 \<le> indexOf xs y"
    using indexOf_ge0_iff [of xs x] x eq by simp
  then have y: "y \<in> set xs"
    by (simp add: indexOf_ge0_iff)
  have "x = xs ! nat (indexOf xs x)"
    using indexOf_nth [OF x] by simp
  also have "\<dots> = xs ! nat (indexOf xs y)"
    by (simp only: eq)
  also have "\<dots> = y"
    using indexOf_nth [OF y] by simp
  finally show ?thesis .
qed

lemma andThen_apply:
  "andThen m f s = (case m s of (Inl e, s') \<Rightarrow> (Inl e, s') | (Inr a, s') \<Rightarrow> f a s')"
  by (simp add: andThen_def)

lemma openNewContext_state:
  "openNewContext s =
     (Inr (), s\<lparr>createdRequestContexts := Suc (createdRequestContexts s),
               requestContexts := requestContexts s @ [createdRequestContexts s],
               workingRequestContext := Some (createdRequestContexts s)\<rparr>)"
  by (simp add: openNewContext_def andThen_def apiRequest_newContext_def modify_def
      updateWorkingRequestContext_def js_index_def)

lemma openNewThrowAwayContext_state:
  "openNewThrowAwayContext s =
     (Inr (), s\<lparr>createdRequestContexts := Suc (createdRequestContexts s),
               throwAwayContexts := throwAwayContexts s @ [createdRequestContexts s],
               workingRequestContext := Some (createdRequestContexts s)\<rparr>)"
  by (simp add: openNewThrowAwayContext_def andThen_def apiRequest_newContext_def modify_def)

lemma switchWorkingContext_cases:
  "switchWorkingContext i s =
     (if \<not> i < int (length (requestContexts s)) then (Inl (ExpectRequestContextNotFound i), s)
      else if i = workingRequestContextIndex s then (Inl (ExpectAlreadyWorkingOnContext i), s)
      else if i < 0 then (Inl (RequestContextNotFound i), s)
      else (Inr (), s\<lparr>workingRequestContext := Some (requestContexts s ! nat i)\<rparr>))"
  by (simp add: switchWorkingContext_def andThen_def expect_def ret_def throw_def
      updateWorkingRequestContext_def js_index_def)

lemma request_inv_init: "request_inv request_init"
  by (simp add: request_inv_def request_init_def)

lemma putExtraHeader_unchanged:
  "requestContexts (putExtraHeader k v s) = requestContexts s"
  "throwAwayContexts (putExtraHeader k v s) = throwAwayContexts s"
  "workingRequestContext (putExtraHeader k v s) = workingRequestContext s"
  "createdRequestContexts (putExtraHeader k v s) = createdRequestContexts s"
  by (simp_all add: putExtraHeader_def Let_def)

lemma indexOfWorking_bounds:
  "0 \<le> indexOfWorking xs working \<Longrightarrow> indexOfWorking xs working < int (length xs)"
  by (cases working) (simp_all add: indexOfWorking_def indexOf_ge0_iff indexOf_nth)

lemma putExtraHeader_requestHeaders:
  "requestContextsExtraHeaders (putExtraHeader k v s) i \<noteq> None \<Longrightarrow>
   requestContextsExtraHeaders s i \<noteq> None \<or> (0 \<le> i \<and> i < int (length (requestContexts s)))"
  using indexOfWorking_bounds [of "requestContexts s" "workingRequestContext s"]
  by (simp add: putExtraHeader_def Let_def setHeader_def workingRequestContextIndex_def
      split: if_splits)

lemma putExtraHeader_throwAwayHeaders:
  "throwAwayContextsExtraHeaders (putExtraHeader k v s) i \<noteq> None \<Longrightarrow>
   throwAwayContextsExtraHeaders s i \<noteq> None \<or> (0 \<le> i \<and> i < int (length (throwAwayContexts s)))"
  using indexOfWorking_bounds [of "throwAwayContexts s" "workingRequestContext s"]
  by (simp add: putExtraHeader_def Let_def setHeader_def split: if_splits)

lemma request_inv_put: "request_inv s \<Longrightarrow> request_inv (putExtraHeader k v s)"
  unfolding request_inv_def putExtraHeader_unchanged
  using putExtraHeader_requestHeaders [of k v s] putExtraHeader_throwAwayHeaders [of k v s]
  by blast

lemma request_inv_open: "request_inv s \<Longrightarrow> request_inv (snd (openNewContext s))"
  unfolding request_inv_def openNewContext_state
  by (simp add: less_Suc_eq) fastforce

lemma request_inv_openThrowAway:
  "request_inv s \<Longrightarrow> request_inv (snd (openNewThrowAwayContext s))"
  unfolding request_inv_def openNewThrowAwayContext_state
  by (simp add: less_Suc_eq) fastforce

lemma request_inv_switch: "request_inv s \<Longrightarrow> request_inv (snd (switchWorkingContext i s))"
  unfolding request_inv_def switchWorkingContext_cases
  by simp

lemma request_inv_exec: "request_inv s \<Longrightarrow> request_inv (request_exec op s)"
  by (cases op)
    (simp_all add: request_inv_put request_inv_open request_inv_openThrowAway request_inv_switch)

lemma request_inv_fold: "request_inv s \<Longrightarrow> request_inv (fold request_exec ops s)"
  by (induction ops arbitrary: s) (simp_all add: request_inv_exec)

lemma request_inv_run: "request_inv (request_run ops)"
  by (simp add: request_run_def request_inv_fold request_inv_init)

lemma putExtraHeader_cases:
  "putExtraHeader k v s =
     (case workingRequestContext s of
        None \<Rightarrow> s
      | Some w \<Rightarrow>
          if w \<in> set (requestContexts s)
          then s\<lparr>requestContextsExtraHeaders :=
                  setHeader (requestContextsExtraHeaders s) (indexOf (requestContexts s) w) k v\<rparr>
          else if w \<in> set (throwAwayContexts s)
          then s\<lparr>throwAwayContextsExtraHeaders :=
                  setHeader (throwAwayContextsExtraHeaders s) (indexOf (throwAwayContexts s) w) k v\<rparr>
          else s)"
  using indexOf_ge0_iff [of "requestContexts s"] indexOf_ge0_iff [of "throwAwayContexts s"]
  by (simp add: putExtraHeader_def workingRequestContextIndex_def indexOfWorking_def Let_def
      split: option.splits)

lemma headersOf_put_focused:
  assumes "request_inv s" and "workingRequestContext s = Some c"
  shows "headersOf (putExtraHeader k v s) c
    = Some (AList.update k v (case headersOf s c of None \<Rightarrow> [] | Some m \<Rightarrow> m))"
proof -
  have "c \<in> set (requestContexts s) \<or> c \<in> set (throwAwayContexts s)"
    using assms by (auto simp: request_inv_def)
  then show ?thesis
    using assms(2) by (auto simp: headersOf_def putExtraHeader_cases setHeader_def)
qed

lemma headersOf_put_other:
  assumes "workingRequestContext s \<noteq> Some c"
  shows "headersOf (putExtraHeader k v s) c = headersOf s c"
proof (cases "workingRequestContext s")
  case None
  then show ?thesis
    by (simp add: putExtraHeader_cases)
next
  case (Some w)
  with assms have wc: "w \<noteq> c" by simp
  have rc: "indexOf (requestContexts s) c \<noteq> indexOf (requestContexts s) w"
    if "c \<in> set (requestContexts s)"
    using indexOf_inj [OF that] wc by blast
  have ta: "indexOf (throwAwayContexts s) c \<noteq> indexOf (throwAwayContexts s) w"
    if "c \<in> set (throwAwayContexts s)"
    using indexOf_inj [OF that] wc by blast
  show ?thesis
    using Some rc ta
    by (simp add: headersOf_def putExtraHeader_cases setHeader_def)
qed

lemma headersOf_open:
  assumes "request_inv s"
  shows "headersOf (snd (openNewContext s)) c = headersOf s c"
proof (cases "c \<in> set (requestContexts s)")
  case True
  then show ?thesis
    by (simp add: headersOf_def openNewContext_state indexOf_append)
next
  case False
  show ?thesis
  proof (cases "c = createdRequestContexts s")
    case True
    then have "c \<notin> set (throwAwayContexts s)"
      using assms by (auto simp: request_inv_def)
    moreover have "requestContextsExtraHeaders s (int (length (requestContexts s))) = None"
      using assms by (fastforce simp: request_inv_def)
    ultimately show ?thesis
      using False True by (simp add: headersOf_def openNewContext_state indexOf_append_new)
  next
    case neq: False
    with False show ?thesis
      by (simp add: headersOf_def openNewContext_state)
  qed
qed

lemma headersOf_openThrowAway:
  assumes "request_inv s"
  shows "headersOf (snd (openNewThrowAwayContext s)) c = headersOf s c"
proof (cases "c \<in> set (throwAwayContexts s)")
  case True
  then show ?thesis
    by (simp add: headersOf_def openNewThrowAwayContext_state indexOf_append)
next
  case False
  show ?thesis
  proof (cases "c = createdRequestContexts s")
    case True
    then have "c \<notin> set (requestContexts s)"
      using assms by (auto simp: request_inv_def)
    moreover have "throwAwayContextsExtraHeaders s (int (length (throwAwayContexts s))) = None"
      using assms by (fastforce simp: request_inv_def)
    ultimately show ?thesis
      using False True by (simp add: headersOf_def openNewThrowAwayContext_state indexOf_append_new)
  next
    case neq: False
    with False show ?thesis
      by (simp add: headersOf_def openNewThrowAwayContext_state)
  qed
qed

lemma headersOf_switch: "headersOf (snd (switchWorkingContext i s)) c = headersOf s c"
  by (simp add: headersOf_def switchWorkingContext_cases)

lemma entries_update:
  "entries (Some (AList.update k v (case x of None \<Rightarrow> [] | Some m \<Rightarrow> m))) = (entries x)(k \<mapsto> v)"
  by (cases x) (simp_all add: entries_def update_conv')

lemma headers_refine:
  "request_inv s \<Longrightarrow>
   entries (headersOf (fold request_exec ops s) c) = headersPut c ops s (entries (headersOf s c))"
proof (induction ops arbitrary: s)
  case Nil
  show ?case by simp
next
  case (Cons op ops)
  have inv: "request_inv (request_exec op s)"
    using Cons.prems by (rule request_inv_exec)
  show ?case
  proof (cases op)
    case (PutExtraHeader k v)
    show ?thesis
    proof (cases "workingRequestContext s = Some c")
      case True
      have "entries (headersOf (putExtraHeader k v s) c) = (entries (headersOf s c))(k \<mapsto> v)"
        by (simp only: headersOf_put_focused [OF Cons.prems True] entries_update)
      then have "entries (headersOf (fold request_exec ops (putExtraHeader k v s)) c)
          = headersPut c ops (putExtraHeader k v s) ((entries (headersOf s c))(k \<mapsto> v))"
        using Cons.IH [OF inv] by (simp only: PutExtraHeader request_exec.simps)
      then show ?thesis
        using True
        by (simp only: PutExtraHeader fold_simps request_exec.simps headersPut.simps if_True
            refl comp_apply)
    next
      case False
      then show ?thesis
        using Cons.IH [OF inv] by (simp add: PutExtraHeader headersOf_put_other)
    qed
  next
    case OpenNewContext
    then show ?thesis
      using Cons.IH [OF inv] Cons.prems by (simp add: headersOf_open)
  next
    case OpenNewThrowAwayContext
    then show ?thesis
      using Cons.IH [OF inv] Cons.prems by (simp add: headersOf_openThrowAway)
  next
    case (SwitchWorkingContext i)
    then show ?thesis
      using Cons.IH [OF inv] by (simp add: headersOf_switch)
  qed
qed

lemma getExtraHeaders_headersOf:
  assumes "request_inv s" and "workingRequestContext s = Some c"
  shows "getExtraHeaders s = Inr (definedHeaders (headersOf s c))"
proof -
  have "c \<in> set (requestContexts s) \<or> c \<in> set (throwAwayContexts s)"
    using assms by (auto simp: request_inv_def)
  then show ?thesis
    using assms(2) indexOf_ge0_iff [of "requestContexts s" c]
      indexOf_ge0_iff [of "throwAwayContexts s" c]
    by (auto simp: getExtraHeaders_def headersOf_def workingRequestContextIndex_def
        indexOfWorking_def Let_def)
qed

lemma entries_definedHeaders: "entries (definedHeaders x) = entries x"
  by (cases x) (simp_all add: entries_def definedHeaders_def)

lemma definedHeaders_None_iff: "definedHeaders x = None \<longleftrightarrow> entries x = Map.empty"
proof (cases x)
  case None
  then show ?thesis by (simp add: entries_def definedHeaders_def)
next
  case (Some m)
  then show ?thesis
    by (cases m) (auto simp: entries_def definedHeaders_def fun_eq_iff)
qed

lemma definedHeaders_update:
  "definedHeaders (Some (AList.update k v m)) = Some (AList.update k v m)"
  by (simp add: definedHeaders_def)

text \<open>
  C9. In any state the request helper can reach with a context \<open>c\<close> focused:
  \<open>getExtraHeaders\<close> right after \<open>putExtraHeader k v\<close> returns an object in which \<open>k\<close> maps to
  \<open>v\<close>; a second \<open>putExtraHeader\<close> with the same key overwrites the value; and in general
  \<open>getExtraHeaders\<close> returns exactly the headers put while \<open>c\<close> was the focused context, whatever
  was opened, switched or put on other contexts in between, and \<open>undefined\<close> exactly when no header
  was ever put while \<open>c\<close> was focused.
\<close>

theorem extra_headers_round_trip:
  assumes "workingRequestContext (request_run ops) = Some c"
  shows "(\<exists>obj. getExtraHeaders (putExtraHeader k v (request_run ops)) = Inr (Some obj)
            \<and> map_of obj k = Some v)
    \<and> (\<exists>obj. getExtraHeaders (putExtraHeader k v' (putExtraHeader k v (request_run ops)))
              = Inr (Some obj) \<and> map_of obj k = Some v')
    \<and> (\<exists>obj. getExtraHeaders (request_run ops) = Inr obj
            \<and> entries obj = headersPut c ops request_init Map.empty
            \<and> (obj = None \<longleftrightarrow> headersPut c ops request_init Map.empty = Map.empty))"
proof -
  let ?s = "request_run ops"
  have inv: "request_inv ?s" by (rule request_inv_run)
  have round: "\<exists>obj. getExtraHeaders (putExtraHeader k v s) = Inr (Some obj) \<and> map_of obj k = Some v"
    if "request_inv s" and "workingRequestContext s = Some c" for s v
  proof -
    have "getExtraHeaders (putExtraHeader k v s) = Inr (definedHeaders (headersOf (putExtraHeader k v s) c))"
      using that by (intro getExtraHeaders_headersOf request_inv_put) (simp_all add: putExtraHeader_unchanged)
    then show ?thesis
      using that by (simp add: headersOf_put_focused definedHeaders_update update_conv')
  qed
  have first: "\<exists>obj. getExtraHeaders (putExtraHeader k v ?s) = Inr (Some obj) \<and> map_of obj k = Some v"
    using inv assms by (rule round)
  have second: "\<exists>obj. getExtraHeaders (putExtraHeader k v' (putExtraHeader k v ?s)) = Inr (Some obj)
      \<and> map_of obj k = Some v'"
    using request_inv_put [OF inv] assms by (intro round) (simp_all add: putExtraHeader_unchanged)
  have "entries (headersOf ?s c) = headersPut c ops request_init Map.empty"
    using headers_refine [OF request_inv_init, of ops c]
    by (simp add: request_run_def headersOf_def request_init_def entries_def)
  then have third: "\<exists>obj. getExtraHeaders ?s = Inr obj
      \<and> entries obj = headersPut c ops request_init Map.empty
      \<and> (obj = None \<longleftrightarrow> headersPut c ops request_init Map.empty = Map.empty)"
    using getExtraHeaders_headersOf [OF inv assms]
    by (simp add: entries_definedHeaders definedHeaders_None_iff)
  show ?thesis
    using first second third by blast
qed

text \<open>
  C7 (as amended). \<open>switchWorkingContext i\<close> fails, leaving the state as it was, when \<open>i\<close> is
  not less than the number of persistent contexts, when \<open>i\<close> is the index of the focused
  persistent context, and when \<open>i\<close> is negative; otherwise it makes the persistent context at
  index \<open>i\<close> the focused one. In every state the helper can reach, a switch that completes
  focuses a persistent context, never one of the throw-away contexts.
\<close>

theorem switchWorkingContext_focus:
  "(\<not> i < int (length (requestContexts s))
      \<longrightarrow> switchWorkingContext i s = (Inl (ExpectRequestContextNotFound i), s))
   \<and> (i = workingRequestContextIndex s
      \<longrightarrow> \<not> completes (switchWorkingContext i s) \<and> snd (switchWorkingContext i s) = s)
   \<and> (i < 0
      \<longrightarrow> \<not> completes (switchWorkingContext i s) \<and> snd (switchWorkingContext i s) = s)
   \<and> (0 \<le> i \<and> i < int (length (requestContexts s)) \<and> i \<noteq> workingRequestContextIndex s
      \<longrightarrow> switchWorkingContext i s
          = (Inr (), s\<lparr>workingRequestContext := Some (requestContexts s ! nat i)\<rparr>))
   \<and> (completes (switchWorkingContext i (request_run ops))
      \<longrightarrow> (\<exists>c. workingRequestContext (snd (switchWorkingContext i (request_run ops))) = Some c
               \<and> c \<in> set (requestContexts (request_run ops))
               \<and> c \<notin> set (throwAwayContexts (request_run ops))))"
proof -
  have "c \<notin> set (throwAwayContexts (request_run ops))"
    if "c \<in> set (requestContexts (request_run ops))" for c
    using request_inv_run [of ops] that by (auto simp: request_inv_def)
  then show ?thesis
    by (auto simp: switchWorkingContext_cases completes_def)
qed

text \<open>
  A header put on a persistent context is still there after a throw-away context was opened
  and the focus switched back.
\<close>

theorem extra_headers_round_trip_witness:
  "workingRequestContext (request_run
      [OpenNewContext, PutExtraHeader ''Accept'' ''text/html'', OpenNewThrowAwayContext,
       SwitchWorkingContext 0]) = Some 0
   \<and> (\<exists>obj. getExtraHeaders (request_run
          [OpenNewContext, PutExtraHeader ''Accept'' ''text/html'', OpenNewThrowAwayContext,
           SwitchWorkingContext 0]) = Inr obj
        \<and> entries obj = [''Accept'' \<mapsto> ''text/html''] \<and> obj \<noteq> None)"
proof -
  let ?ops = "[OpenNewContext, PutExtraHeader ''Accept'' ''text/html'', OpenNewThrowAwayContext,
       SwitchWorkingContext 0]"
  have focus: "workingRequestContext (request_run ?ops) = Some 0"
    by code_simp
  have put: "headersPut 0 ?ops request_init Map.empty = [''Accept'' \<mapsto> ''text/html'']"
    by (simp add: openNewContext_state request_init_def)
  have "[''Accept'' \<mapsto> ''text/html''] \<noteq> Map.empty"
    by simp
  then show ?thesis
    using focus extra_headers_round_trip [OF focus, of "''k''" "''v''" "''w''"]
    unfolding put by auto
qed

theorem switchWorkingContext_focus_witness:
  "switchWorkingContext 0 (request_run [OpenNewContext, OpenNewThrowAwayContext])
     = (Inr (), (request_run [OpenNewContext, OpenNewThrowAwayContext])
                  \<lparr>workingRequestContext := Some 0\<rparr>)
   \<and> switchWorkingContext 1 (request_run [OpenNewContext, OpenNewThrowAwayContext])
     = (Inl (ExpectRequestContextNotFound 1), request_run [OpenNewContext, OpenNewThrowAwayContext])"
proof -
  let ?s = "request_run [OpenNewContext, OpenNewThrowAwayContext]"
  have h: "0 \<le> (0::int) \<and> 0 < int (length (requestContexts ?s)) \<and> 0 \<noteq> workingRequestContextIndex ?s"
    by code_simp
  have h': "\<not> 1 < int (length (requestContexts ?s))"
    by code_simp
  have nth: "requestContexts ?s ! nat 0 = 0"
    by code_simp
  show ?thesis
    using h h' switchWorkingContext_focus [of 0 ?s "[]"] switchWorkingContext_focus [of 1 ?s "[]"]
    unfolding nth by blast
qed

text \<open>
  C7 as stated fails at a negative index: with one persistent context, focused, \<open>-1\<close> is less
  than the number of contexts and is not the focused index, yet the switch throws, from
  \<open>updateWorkingRequestContext\<close>.
\<close>

theorem switch_to_negative_index_fails:
  "- 1 < int (length (requestContexts (request_run [OpenNewContext])))
   \<and> - 1 \<noteq> workingRequestContextIndex (request_run [OpenNewContext])
   \<and> switchWorkingContext (- 1) (request_run [OpenNewContext])
       = (Inl (RequestContextNotFound (- 1)), request_run [OpenNewContext])"
  by (simp add: switchWorkingContext_cases request_run_def openNewContext_state request_init_def
      workingRequestContextIndex_def indexOfWorking_def)

section \<open>Properties: browserHelper\<close>

lemma getContext_apply:
  "getContext c s =
     (if 0 \<le> c \<and> c < int (length (contexts s)) then (Inr (contexts s ! nat c), s)
      else (Inl (ContextDoesNotExist c), s))"
  by (simp add: getContext_def js_index_def ret_def throw_def)

lemma getPage_apply:
  "getPage c t s =
     (if 0 \<le> c \<and> c < int (length (contexts s))
      then (if 0 \<le> t \<and> t < int (length (pages s (contexts s ! nat c)))
            then (Inr (pages s (contexts s ! nat c) ! nat t), s)
            else (Inl (PageDoesNotExist t c), s))
      else (Inl (ContextDoesNotExist c), s))"
  by (simp add: getPage_def andThen_def getContext_apply js_index_def ret_def throw_def)

lemma workingContext_apply:
  "workingContext s =
     (case workingTab s of None \<Rightarrow> (Inl TypeError, s) | Some tab \<Rightarrow> (Inr (page_context tab), s))"
  by (simp add: workingContext_def ret_def throw_def split: option.splits)

lemma workingContextIndex_apply:
  "workingContextIndex s =
     (case workingTab s of
        None \<Rightarrow> (Inl TypeError, s)
      | Some tab \<Rightarrow> (Inr (indexOf (contexts s) (page_context tab)), s))"
  by (simp add: workingContextIndex_def andThen_def workingContext_apply ret_def
      split: option.splits)

lemma workingTabIndex_apply:
  "workingTabIndex s =
     (case workingTab s of
        None \<Rightarrow> (Inl TypeError, s)
      | Some tab \<Rightarrow> (Inr (indexOf (pages s (page_context tab)) tab), s))"
  by (simp add: workingTabIndex_def andThen_def workingContext_apply ret_def
      split: option.splits)

lemma isWorkingTab_apply:
  "isWorkingTab c t s =
     (case workingTab s of
        None \<Rightarrow> (Inl TypeError, s)
      | Some tab \<Rightarrow>
          (Inr (c = indexOf (contexts s) (page_context tab)
                \<and> t = indexOf (pages s (page_context tab)) tab), s))"
  by (simp add: isWorkingTab_def andThen_def workingContextIndex_apply workingTabIndex_apply
      ret_def split: option.splits)

lemma latestContextIndex_apply: "latestContextIndex s = (Inr (int (length (contexts s)) - 1), s)"
  by (simp add: latestContextIndex_def ret_def)

lemma latestTabIndex_apply:
  "latestTabIndex c s =
     (if 0 \<le> c \<and> c < int (length (contexts s))
      then (Inr (int (length (pages s (contexts s ! nat c))) - 1), s)
      else (Inl (ContextDoesNotExist c), s))"
  by (simp add: latestTabIndex_def andThen_def getContext_apply ret_def)

lemma contextPageTypes_apply:
  "contextPageTypes c s =
     (if 0 \<le> c \<and> c < int (length (pageTypes s)) then (Inr (pageTypes s ! nat c), s)
      else (Inl (NoPageTypesFound c), s))"
  by (simp add: contextPageTypes_def js_index_def ret_def throw_def)

lemma pageType_apply:
  "pageType c t s =
     (if 0 \<le> c \<and> c < int (length (pageTypes s)) then (Inr ((pageTypes s ! nat c) t), s)
      else (Inl (NoPageTypesFound c), s))"
  by (simp add: pageType_def andThen_def contextPageTypes_apply ret_def)

lemma updatePageType_apply:
  "updatePageType c t ty s =
     (if 0 \<le> c \<and> c < int (length (pageTypes s))
      then (Inr (), s\<lparr>pageTypes := (pageTypes s)[nat c := (pageTypes s ! nat c)(t \<mapsto> ty)]\<rparr>)
      else (Inl (NoPageTypesFound c), s))"
  by (simp add: updatePageType_def andThen_def contextPageTypes_apply modify_def)

lemma initializePageType_apply:
  "initializePageType c t s = updatePageType c t ''Blank'' s"
  by (simp add: initializePageType_def updatePageType_def)

lemma updateWorkingTab_apply:
  "updateWorkingTab c t s =
     (case getPage c t s of
        (Inl e, s') \<Rightarrow> (Inl e, s)
      | (Inr tab, s') \<Rightarrow> (Inr (), s\<lparr>workingTab := Some tab\<rparr>))"
  by (simp add: updateWorkingTab_def andThen_def getPage_apply modify_def)

lemma expect_apply: "expect b e s = (if b then (Inr (), s) else (Inl e, s))"
  by (simp add: expect_def ret_def throw_def)

lemmas browser_apply =
  getContext_apply getPage_apply workingContext_apply workingContextIndex_apply
  workingTabIndex_apply isWorkingTab_apply latestContextIndex_apply latestTabIndex_apply
  contextPageTypes_apply pageType_apply updatePageType_apply initializePageType_apply
  updateWorkingTab_apply expect_apply

lemma closeContext_fails_unchanged:
  "\<not> completes (closeContext c s) \<Longrightarrow> snd (closeContext c s) = s"
  by (auto simp: closeContext_def andThen_def completes_def browser_apply closePages_def
      modify_def removeContextPageTypes_def split: option.splits if_splits)

lemma closeTab_fails_unchanged:
  "\<not> completes (closeTab c t s) \<Longrightarrow> snd (closeTab c t s) = s"
  by (auto simp: closeTab_def andThen_def completes_def browser_apply
      modify_def removeContextPageTypes_def split: option.splits if_splits)

text \<open>
  C6. \<open>closeContext\<close> fails its step when no context exists at the index and when the index
  is the working context's; \<open>closeTab\<close> fails when the target page does not exist and when it
  is the working tab. Whenever either step fails, the state is as it was before: no page and
  no context is closed and the page-type records are unchanged.
\<close>

theorem close_guards:
  "(js_index (contexts s) c = None \<longrightarrow> closeContext c s = (Inl (ContextDoesNotExist c), s))
   \<and> (fst (workingContextIndex s) = Inr c \<longrightarrow>
        \<not> completes (closeContext c s) \<and> snd (closeContext c s) = s)
   \<and> (fst (getPage c t s) = Inl e \<longrightarrow> closeTab c t s = (Inl e, s))
   \<and> (fst (isWorkingTab c t s) = Inr True \<longrightarrow>
        \<not> completes (closeTab c t s) \<and> snd (closeTab c t s) = s)
   \<and> (\<not> completes (closeContext c s) \<longrightarrow> snd (closeContext c s) = s)
   \<and> (\<not> completes (closeTab c t s) \<longrightarrow> snd (closeTab c t s) = s)"
proof -
  have a: "closeContext c s = (Inl (ContextDoesNotExist c), s)" if "js_index (contexts s) c = None"
    using that by (simp add: closeContext_def andThen_def getContext_def throw_def)
  have b: "\<not> completes (closeContext c s)" if "fst (workingContextIndex s) = Inr c"
    using that
    by (auto simp: closeContext_def andThen_def completes_def browser_apply
        split: option.splits if_splits)
  have c: "closeTab c t s = (Inl e, s)" if "fst (getPage c t s) = Inl e"
    using that by (auto simp: closeTab_def andThen_def getPage_apply split: if_splits)
  have d: "\<not> completes (closeTab c t s)" if "fst (isWorkingTab c t s) = Inr True"
    using that
    by (auto simp: closeTab_def andThen_def completes_def browser_apply
        split: option.splits if_splits)
  show ?thesis
    using a b c d closeContext_fails_unchanged [of c s] closeTab_fails_unchanged [of c t s]
    by blast
qed

lemma context_newPage_apply:
  "context_newPage k s =
     (Inr \<lparr>page_id = createdPages s, page_context = k\<rparr>,
      s\<lparr>pages := (pages s)(k := pages s k @ [\<lparr>page_id = createdPages s, page_context = k\<rparr>]),
        createdPages := Suc (createdPages s)\<rparr>)"
  by (simp add: context_newPage_def Let_def)

lemma browser_newContext_apply:
  "browser_newContext s =
     (Inr (createdContexts s),
      s\<lparr>contexts := contexts s @ [createdContexts s],
        pages := (pages s)(createdContexts s := []),
        createdContexts := Suc (createdContexts s)\<rparr>)"
  by (simp add: browser_newContext_def)

lemma indexOf_bounds: "0 \<le> indexOf xs x \<Longrightarrow> indexOf xs x < int (length xs) \<and> xs ! nat (indexOf xs x) = x"
  using indexOf_nth [of x xs] by (simp add: indexOf_ge0_iff)

lemma openNewTabInCurrentContext_completes:
  assumes "completes (openNewTabInCurrentContext cur s)"
  shows "\<exists>tab. workingTab s = Some tab
    \<and> workingTab (snd (openNewTabInCurrentContext cur s))
        = Some \<lparr>page_id = createdPages s, page_context = page_context tab\<rparr>
    \<and> pages (snd (openNewTabInCurrentContext cur s)) (page_context tab)
        = pages s (page_context tab) @ [\<lparr>page_id = createdPages s, page_context = page_context tab\<rparr>]"
proof (cases "workingTab s")
  case None
  with assms show ?thesis
    by (simp add: openNewTabInCurrentContext_def andThen_def completes_def workingContextIndex_apply)
next
  case (Some tab)
  let ?k = "page_context tab"
  let ?i = "indexOf (contexts s) ?k"
  have i: "0 \<le> ?i \<and> ?i < int (length (pageTypes s))"
    using assms Some
    by (auto simp: openNewTabInCurrentContext_def andThen_def completes_def browser_apply
        split: if_splits)
  then have k: "?i < int (length (contexts s))" "contexts s ! nat ?i = ?k"
    using indexOf_bounds [of "contexts s" ?k] by simp_all
  show ?thesis
    using Some i k
    by (simp add: openNewTabInCurrentContext_def andThen_def browser_apply
        context_newPage_apply modify_def)
qed

lemma openNewTabInNewContext_completes:
  assumes "completes (openNewTabInNewContext cur s)"
  shows "contexts (snd (openNewTabInNewContext cur s)) = contexts s @ [createdContexts s]
    \<and> pages (snd (openNewTabInNewContext cur s)) (createdContexts s)
        = [\<lparr>page_id = createdPages s, page_context = createdContexts s\<rparr>]
    \<and> workingTab (snd (openNewTabInNewContext cur s))
        = Some \<lparr>page_id = createdPages s, page_context = createdContexts s\<rparr>
    \<and> fst (pageType (int (length (contexts (snd (openNewTabInNewContext cur s)))) - 1) 0
             (snd (openNewTabInNewContext cur s))) = Inr (Some ''Blank'')"
proof -
  obtain s1 where first:
    "(case cur of
        None \<Rightarrow> ret ()
      | Some t \<Rightarrow>
          if t = [] then ret ()
          else andThen workingContextIndex (\<lambda>contextIndex.
               andThen workingTabIndex (\<lambda>tabIndex.
               updatePageType contextIndex tabIndex t))) s = (Inr (), s1)"
    using assms
    by (auto simp: openNewTabInNewContext_def andThen_def completes_def
        split: prod.splits sum.splits)
  have same: "contexts s1 = contexts s" "pages s1 = pages s" "createdContexts s1 = createdContexts s"
    "createdPages s1 = createdPages s"
    using first
    by (auto simp: ret_def andThen_def browser_apply split: option.splits if_splits)
  have run: "openNewTabInNewContext cur s =
      andThen browser_newContext (\<lambda>newContext.
      andThen (context_newPage newContext) (\<lambda>newTab.
      andThen initializeContextPageTypes (\<lambda>_.
      andThen latestContextIndex (\<lambda>contextIndex.
      andThen (initializePageType contextIndex 0) (\<lambda>_.
      andThen latestContextIndex (\<lambda>contextIndex.
      updateWorkingTab contextIndex 0)))))) s1"
    using first by (simp add: openNewTabInNewContext_def andThen_def)
  have len: "int (length (contexts s)) < int (length (pageTypes s1)) + 1"
    using assms same unfolding run
    by (auto simp: andThen_def completes_def browser_apply browser_newContext_apply
        context_newPage_apply initializeContextPageTypes_def modify_def split: if_splits)
  show ?thesis
    unfolding run using len same
    by (simp add: andThen_def browser_apply browser_newContext_apply
        context_newPage_apply initializeContextPageTypes_def modify_def nth_append)
qed

lemma switchWorkingTab_completes:
  assumes "completes (switchWorkingTab c t cur nxt s)"
  shows "\<exists>tab. fst (getPage c t (snd (switchWorkingTab c t cur nxt s))) = Inr tab
    \<and> workingTab (snd (switchWorkingTab c t cur nxt s)) = Some tab"
  using assms
  by (auto simp: switchWorkingTab_def andThen_def completes_def browser_apply
      split: option.splits if_splits)

lemma switchWorkingTab_fails_unchanged_before_update:
  assumes "fst (latestTabIndex c s) = Inr latestTab \<and> t > latestTab
    \<or> fst (isWorkingTab c t s) = Inr True
    \<or> fst (pageType c t s) = Inr actual \<and> actual \<noteq> Some nxt"
  shows "\<not> completes (switchWorkingTab c t cur nxt s) \<and> snd (switchWorkingTab c t cur nxt s) = s"
  using assms
  by (auto simp: switchWorkingTab_def andThen_def completes_def browser_apply
      split: option.splits if_splits)

lemma switchWorkingTab_switches:
  assumes "fst (latestContextIndex s) = Inr latest" and "c \<le> latest"
    and "fst (latestTabIndex c s) = Inr latestTab" and "0 \<le> t" and "t \<le> latestTab"
    and "fst (isWorkingTab c t s) = Inr False"
    and "fst (pageType c t s) = Inr (Some nxt)"
    and "fst (workingContextIndex s) = Inr wci" and "fst (workingTabIndex s) = Inr wti"
    and "fst (contextPageTypes wci s) = Inr types"
  shows "switchWorkingTab c t cur nxt s =
    (Inr (), s\<lparr>pageTypes := (pageTypes s)[nat wci := types(wti \<mapsto> cur)],
               workingTab := Some (pages s (contexts s ! nat c) ! nat t)\<rparr>)"
  using assms
  by (auto simp: switchWorkingTab_def andThen_def browser_apply
      split: option.splits if_splits)

text \<open>
  \<open>switchWorkingTab\<close> in any state: it fails its step, leaving the state as it was, when
  the context index exceeds the latest context index, when the tab index exceeds the latest
  tab index of that context, when the target is already the working tab, and when the
  recorded page type of the target differs from \<open>nextPageType\<close>. When all four checks pass,
  the tab index is not negative and page types are recorded at the index of the working
  tab's context, it records \<open>currentPageType\<close> on the previous working tab and makes the tab
  at the given indices the working tab.
\<close>

theorem switchWorkingTab_checks:
  "(fst (latestContextIndex s) = Inr latest \<and> c > latest \<longrightarrow>
      switchWorkingTab c t cur nxt s = (Inl (ExpectContextNotFound c), s))
   \<and> (fst (latestTabIndex c s) = Inr latestTab \<and> t > latestTab \<longrightarrow>
        \<not> completes (switchWorkingTab c t cur nxt s) \<and> snd (switchWorkingTab c t cur nxt s) = s)
   \<and> (fst (isWorkingTab c t s) = Inr True \<longrightarrow>
        \<not> completes (switchWorkingTab c t cur nxt s) \<and> snd (switchWorkingTab c t cur nxt s) = s)
   \<and> (fst (pageType c t s) = Inr actual \<and> actual \<noteq> Some nxt \<longrightarrow>
        \<not> completes (switchWorkingTab c t cur nxt s) \<and> snd (switchWorkingTab c t cur nxt s) = s)
   \<and> (fst (latestContextIndex s) = Inr latest \<and> c \<le> latest
        \<and> fst (latestTabIndex c s) = Inr latestTab \<and> 0 \<le> t \<and> t \<le> latestTab
        \<and> fst (isWorkingTab c t s) = Inr False
        \<and> fst (pageType c t s) = Inr (Some nxt)
        \<and> fst (workingContextIndex s) = Inr wci \<and> fst (workingTabIndex s) = Inr wti
        \<and> fst (contextPageTypes wci s) = Inr types \<longrightarrow>
        switchWorkingTab c t cur nxt s =
          (Inr (), s\<lparr>pageTypes := (pageTypes s)[nat wci := types(wti \<mapsto> cur)],
                     workingTab := Some (pages s (contexts s ! nat c) ! nat t)\<rparr>))"
proof -
  have first: "switchWorkingTab c t cur nxt s = (Inl (ExpectContextNotFound c), s)"
    if "fst (latestContextIndex s) = Inr latest \<and> c > latest"
    using that by (simp add: switchWorkingTab_def andThen_def browser_apply)
  show ?thesis
    using first switchWorkingTab_fails_unchanged_before_update [of c s latestTab t actual nxt cur]
      switchWorkingTab_switches [of s latest c latestTab t nxt wci wti types cur]
    by blast
qed

theorem switchWorkingTab_checks_witness:
  "switchWorkingTab 0 1 ''Checkout'' ''Cart'' (snd (browser_run example_two_contexts browser_init))
     = (Inr (), (snd (browser_run example_two_contexts browser_init))
          \<lparr>pageTypes := (pageTypes (snd (browser_run example_two_contexts browser_init)))
              [nat 1 := (\<lambda>i. if i = 0 then Some ''Blank'' else None)(0 \<mapsto> ''Checkout'')],
           workingTab := Some \<lparr>page_id = 1, page_context = 0\<rparr>\<rparr>)
   \<and> switchWorkingTab 2 0 ''Checkout'' ''Cart'' (snd (browser_run example_two_contexts browser_init))
     = (Inl (ExpectContextNotFound 2), snd (browser_run example_two_contexts browser_init))"
proof -
  let ?s = "snd (browser_run example_two_contexts browser_init)"
  have h: "fst (latestContextIndex ?s) = Inr 1 \<and> (0::int) \<le> 1
      \<and> fst (latestTabIndex 0 ?s) = Inr 1 \<and> (0::int) \<le> 1 \<and> (1::int) \<le> 1
      \<and> fst (isWorkingTab 0 1 ?s) = Inr False
      \<and> fst (pageType 0 1 ?s) = Inr (Some ''Cart'')
      \<and> fst (workingContextIndex ?s) = Inr 1 \<and> fst (workingTabIndex ?s) = Inr 0"
    by code_simp
  have types: "fst (contextPageTypes 1 ?s) = Inr (\<lambda>i. if i = 0 then Some ''Blank'' else None)"
    by (simp add: example_two_contexts_def andThen_def openNewTabInNewContext_def
        openNewTabInCurrentContext_def browser_apply browser_newContext_apply
        context_newPage_apply initializeContextPageTypes_def modify_def ret_def
        browser_init_def fun_eq_iff)
  have tab: "pages ?s (contexts ?s ! nat 0) ! nat 1 = \<lparr>page_id = 1, page_context = 0\<rparr>"
    by code_simp
  have h2: "fst (latestContextIndex ?s) = Inr 1 \<and> (2::int) > 1"
    by code_simp
  show ?thesis
    using h types h2
      switchWorkingTab_checks [where s = ?s and latest = 1 and c = 0 and t = 1
        and cur = "''Checkout''" and nxt = "''Cart''" and latestTab = 1 and wci = 1 and wti = 0
        and types = "\<lambda>i. if i = 0 then Some ''Blank'' else None"]
      switchWorkingTab_checks [where s = ?s and latest = 1 and c = 2 and t = 0
        and cur = "''Checkout''" and nxt = "''Cart''"]
    unfolding tab by blast
qed

text \<open>
  C4 does not hold of the code in a state the helper reaches: two contexts, the first with
  two tabs, the working tab in the second, then \<open>closeTab(0, 0)\<close>. All four checks of
  \<open>switchWorkingTab(0, 0, "Cart", "Blank")\<close> pass, and the step throws from
  \<open>contextPageTypes\<close>: \<open>closeTab\<close> has removed the page types of context 0, and those of the
  working tab's context are no longer at its index.
\<close>

theorem switchWorkingTab_stuck_after_closeTab:
  "completes (browser_run (example_two_contexts @ [CloseTab 0 0]) browser_init)
   \<and> fst (latestContextIndex (snd (browser_run (example_two_contexts @ [CloseTab 0 0]) browser_init)))
       = Inr 1
   \<and> fst (latestTabIndex 0 (snd (browser_run (example_two_contexts @ [CloseTab 0 0]) browser_init)))
       = Inr 0
   \<and> fst (isWorkingTab 0 0 (snd (browser_run (example_two_contexts @ [CloseTab 0 0]) browser_init)))
       = Inr False
   \<and> fst (pageType 0 0 (snd (browser_run (example_two_contexts @ [CloseTab 0 0]) browser_init)))
       = Inr (Some ''Blank'')
   \<and> fst (switchWorkingTab 0 0 ''Cart'' ''Blank''
         (snd (browser_run (example_two_contexts @ [CloseTab 0 0]) browser_init)))
       = Inl (NoPageTypesFound 1)"
  by code_simp

text \<open>
  C3 does not hold of the code. After a new context, a second tab in it and \<open>closeTab(0, 0)\<close>,
  every step has completed, context 0 is open with one tab, the working tab, and
  \<open>pageType(0, 0)\<close> throws: \<open>closeTab\<close> has removed the page types of the whole context with
  \<open>removeContextPageTypes\<close>.
\<close>

theorem closeTab_drops_page_types_of_open_tab:
  "completes (browser_run example_tab_closed browser_init)
   \<and> contexts (snd (browser_run example_tab_closed browser_init)) = [0]
   \<and> pages (snd (browser_run example_tab_closed browser_init)) 0
       = [\<lparr>page_id = 1, page_context = 0\<rparr>]
   \<and> fst (getPage 0 0 (snd (browser_run example_tab_closed browser_init)))
       = Inr \<lparr>page_id = 1, page_context = 0\<rparr>
   \<and> fst (pageType 0 0 (snd (browser_run example_tab_closed browser_init)))
       = Inl (NoPageTypesFound 0)"
  by code_simp

theorem close_guards_witness:
  "closeContext 3 (snd (browser_run example_two_contexts browser_init))
     = (Inl (ContextDoesNotExist 3), snd (browser_run example_two_contexts browser_init))
   \<and> \<not> completes (closeContext 1 (snd (browser_run example_two_contexts browser_init)))
   \<and> snd (closeContext 1 (snd (browser_run example_two_contexts browser_init)))
       = snd (browser_run example_two_contexts browser_init)
   \<and> closeTab 0 2 (snd (browser_run example_two_contexts browser_init))
     = (Inl (PageDoesNotExist 2 0), snd (browser_run example_two_contexts browser_init))
   \<and> \<not> completes (closeTab 1 0 (snd (browser_run example_two_contexts browser_init)))
   \<and> snd (closeTab 1 0 (snd (browser_run example_two_contexts browser_init)))
       = snd (browser_run example_two_contexts browser_init)"
proof -
  let ?s = "snd (browser_run example_two_contexts browser_init)"
  have h: "js_index (contexts ?s) 3 = None \<and> fst (workingContextIndex ?s) = Inr 1
      \<and> fst (getPage 0 2 ?s) = Inl (PageDoesNotExist 2 0) \<and> fst (isWorkingTab 1 0 ?s) = Inr True"
    by code_simp
  show ?thesis
    using h close_guards [where s = ?s and c = 3]
      close_guards [where s = ?s and c = 0 and t = 2 and e = "PageDoesNotExist 2 0"]
      close_guards [where s = ?s and c = 1 and t = 0]
    by blast
qed

text \<open>
  \<open>closeContext\<close> removes the page types of the context it closes and of no other: after
  the second context is closed, both tabs of the first still have their page types.
\<close>

lemma closeContext_keeps_page_types_of_open_tabs:
  "completes (browser_run
      (example_two_contexts @ [SwitchWorkingTab 0 1 ''Checkout'' ''Cart'', CloseContext 1])
      browser_init)
   \<and> contexts (snd (browser_run
        (example_two_contexts @ [SwitchWorkingTab 0 1 ''Checkout'' ''Cart'', CloseContext 1])
        browser_init)) = [0]
   \<and> fst (pageType 0 0 (snd (browser_run
        (example_two_contexts @ [SwitchWorkingTab 0 1 ''Checkout'' ''Cart'', CloseContext 1])
        browser_init))) = Inr (Some ''Home'')
   \<and> fst (pageType 0 1 (snd (browser_run
        (example_two_contexts @ [SwitchWorkingTab 0 1 ''Checkout'' ''Cart'', CloseContext 1])
        browser_init))) = Inr (Some ''Cart'')"
  by code_simp

section \<open>Properties: browserHelper, page types of open tabs\<close>

lemma openNewTabInCurrentContext_state:
  assumes "browser_wf s" and "pageTypesRecorded s" and "workingTab s = Some tab"
  shows "openNewTabInCurrentContext cur s =
    (Inr (),
     s\<lparr>pageTypes := (pageTypes s)
          [nat (indexOf (contexts s) (page_context tab)) :=
             ((pageTypes s ! nat (indexOf (contexts s) (page_context tab)))
                (indexOf (pages s (page_context tab)) tab \<mapsto> cur))
                (int (length (pages s (page_context tab))) \<mapsto> ''Blank'')],
        pages := (pages s)(page_context tab := pages s (page_context tab)
                   @ [\<lparr>page_id = createdPages s, page_context = page_context tab\<rparr>]),
        createdPages := Suc (createdPages s),
        workingTab := Some \<lparr>page_id = createdPages s, page_context = page_context tab\<rparr>\<rparr>)"
proof -
  let ?k = "page_context tab"
  let ?i = "indexOf (contexts s) ?k"
  have "?k \<in> set (contexts s)"
    using assms by (simp add: browser_wf_def)
  then have i: "0 \<le> ?i" "?i < int (length (contexts s))" "contexts s ! nat ?i = ?k"
    using indexOf_nth [of ?k "contexts s"] by (simp_all add: indexOf_ge0_iff)
  moreover have "length (pageTypes s) = length (contexts s)"
    using assms(2) by (simp add: pageTypesRecorded_def)
  ultimately show ?thesis
    using assms(3)
    by (simp add: openNewTabInCurrentContext_def andThen_def browser_apply
        context_newPage_apply modify_def)
qed

lemma indexOf_nat:
  assumes "x \<in> set xs"
  shows "0 \<le> indexOf xs x \<and> nat (indexOf xs x) < length xs \<and> xs ! nat (indexOf xs x) = x"
proof -
  have "0 \<le> indexOf xs x" using assms by (simp add: indexOf_ge0_iff)
  moreover have "indexOf xs x < int (length xs)" "xs ! nat (indexOf xs x) = x"
    using indexOf_nth [OF assms] by simp_all
  ultimately show ?thesis by linarith
qed

lemma wf_index:
  assumes "browser_wf s" and "c < length (contexts s)"
  shows "indexOf (contexts s) (contexts s ! c) = int c"
proof -
  have d: "distinct (contexts s)" using assms(1) by (simp add: browser_wf_def)
  have m: "contexts s ! c \<in> set (contexts s)" using assms(2) by simp
  have "nat (indexOf (contexts s) (contexts s ! c)) < length (contexts s)"
    "contexts s ! nat (indexOf (contexts s) (contexts s ! c)) = contexts s ! c"
    "0 \<le> indexOf (contexts s) (contexts s ! c)"
    using indexOf_nth [OF m] indexOf_ge0_iff [of "contexts s" "contexts s ! c"] m by auto
  then show ?thesis
    using d assms(2) nth_eq_iff_index_eq [of "contexts s"] by fastforce
qed

lemma openNewTabInCurrentContext_inv:
  assumes wf: "browser_wf s" and rec: "pageTypesRecorded s"
  shows "browser_wf (snd (openNewTabInCurrentContext cur s))
    \<and> pageTypesRecorded (snd (openNewTabInCurrentContext cur s))"
proof (cases "workingTab s")
  case None
  then have "snd (openNewTabInCurrentContext cur s) = s"
    by (simp add: openNewTabInCurrentContext_def andThen_def workingContextIndex_apply)
  with assms show ?thesis by simp
next
  case (Some tab)
  let ?k = "page_context tab"
  let ?i = "indexOf (contexts s) ?k"
  let ?new = "\<lparr>page_id = createdPages s, page_context = ?k\<rparr>"
  note st = openNewTabInCurrentContext_state [OF wf rec Some, of cur]
  have kin: "?k \<in> set (contexts s)"
    using wf Some by (simp add: browser_wf_def)
  then have i: "0 \<le> ?i" "nat ?i < length (contexts s)" "contexts s ! nat ?i = ?k"
    using indexOf_nat [of ?k "contexts s"] by simp_all
  have fresh: "?new \<notin> set (pages s ?k)"
    using wf by (fastforce simp: browser_wf_def)
  have wf': "browser_wf (snd (openNewTabInCurrentContext cur s))"
    unfolding st using wf fresh kin
    by (auto simp: browser_wf_def less_Suc_eq)
  have len: "length (pageTypes s) = length (contexts s)"
    using rec by (simp add: pageTypesRecorded_def)
  have rec': "pageTypesRecorded (snd (openNewTabInCurrentContext cur s))"
    unfolding st pageTypesRecorded_def
  proof (intro conjI allI impI)
    show "length (pageTypes (snd (Inr (), s\<lparr>pageTypes := (pageTypes s)
          [nat ?i := ((pageTypes s ! nat ?i)(indexOf (pages s ?k) tab \<mapsto> cur))
                (int (length (pages s ?k)) \<mapsto> ''Blank'')],
        pages := (pages s)(?k := pages s ?k @ [?new]),
        createdPages := Suc (createdPages s), workingTab := Some ?new\<rparr>)))
      = length (contexts (snd (Inr (), s\<lparr>pageTypes := (pageTypes s)
          [nat ?i := ((pageTypes s ! nat ?i)(indexOf (pages s ?k) tab \<mapsto> cur))
                (int (length (pages s ?k)) \<mapsto> ''Blank'')],
        pages := (pages s)(?k := pages s ?k @ [?new]),
        createdPages := Suc (createdPages s), workingTab := Some ?new\<rparr>)))"
      using len by simp
  next
    fix c t
    assume c: "c < length (contexts (snd (Inr (), s\<lparr>pageTypes := (pageTypes s)
          [nat ?i := ((pageTypes s ! nat ?i)(indexOf (pages s ?k) tab \<mapsto> cur))
                (int (length (pages s ?k)) \<mapsto> ''Blank'')],
        pages := (pages s)(?k := pages s ?k @ [?new]),
        createdPages := Suc (createdPages s), workingTab := Some ?new\<rparr>)))"
      and t: "t < length (pages (snd (Inr (), s\<lparr>pageTypes := (pageTypes s)
          [nat ?i := ((pageTypes s ! nat ?i)(indexOf (pages s ?k) tab \<mapsto> cur))
                (int (length (pages s ?k)) \<mapsto> ''Blank'')],
        pages := (pages s)(?k := pages s ?k @ [?new]),
        createdPages := Suc (createdPages s), workingTab := Some ?new\<rparr>))
          (contexts (snd (Inr (), s\<lparr>pageTypes := (pageTypes s)
          [nat ?i := ((pageTypes s ! nat ?i)(indexOf (pages s ?k) tab \<mapsto> cur))
                (int (length (pages s ?k)) \<mapsto> ''Blank'')],
        pages := (pages s)(?k := pages s ?k @ [?new]),
        createdPages := Suc (createdPages s), workingTab := Some ?new\<rparr>)) ! c))"
    have c': "c < length (contexts s)" using c by simp
    show "(pageTypes (snd (Inr (), s\<lparr>pageTypes := (pageTypes s)
          [nat ?i := ((pageTypes s ! nat ?i)(indexOf (pages s ?k) tab \<mapsto> cur))
                (int (length (pages s ?k)) \<mapsto> ''Blank'')],
        pages := (pages s)(?k := pages s ?k @ [?new]),
        createdPages := Suc (createdPages s), workingTab := Some ?new\<rparr>)) ! c) (int t) \<noteq> None"
    proof (cases "c = nat ?i")
      case True
      then have "t < Suc (length (pages s ?k))"
        using t i by simp
      moreover have "(pageTypes s ! nat ?i) (int t) \<noteq> None" if "t < length (pages s ?k)"
        using rec that i by (auto simp: pageTypesRecorded_def)
      ultimately show ?thesis
        using True i len by (auto simp: less_Suc_eq)
    next
      case False
      then have "contexts s ! c \<noteq> ?k"
        using wf_index [OF wf c'] i by auto
      then have "t < length (pages s (contexts s ! c))"
        using t by simp
      then have "(pageTypes s ! c) (int t) \<noteq> None"
        using rec c' by (simp add: pageTypesRecorded_def)
      then show ?thesis
        using False by simp
    qed
  qed
  show ?thesis using wf' rec' by simp
qed

lemma retag_inv:
  assumes "browser_wf s" and "pageTypesRecorded s"
  shows "browser_wf (s\<lparr>pageTypes := (pageTypes s)[i := (pageTypes s ! i)(t \<mapsto> ty)]\<rparr>)
    \<and> pageTypesRecorded (s\<lparr>pageTypes := (pageTypes s)[i := (pageTypes s ! i)(t \<mapsto> ty)]\<rparr>)"
proof -
  have "((pageTypes s)[i := (pageTypes s ! i)(t \<mapsto> ty)] ! c) u \<noteq> None"
    if "(pageTypes s ! c) u \<noteq> None" and "c < length (pageTypes s)" for c u
    using that by (cases "c = i") auto
  then show ?thesis
    using assms by (simp add: browser_wf_def pageTypesRecorded_def)
qed

lemma updatePageType_inv:
  assumes "browser_wf s" and "pageTypesRecorded s"
  shows "browser_wf (snd (updatePageType c t ty s))
    \<and> pageTypesRecorded (snd (updatePageType c t ty s))"
  using assms retag_inv [OF assms, of "nat c" t ty]
  by (simp add: updatePageType_apply)

lemma refocus_inv:
  assumes "browser_wf s" and "pageTypesRecorded s"
    and "c < length (contexts s)" and "t < length (pages s (contexts s ! c))"
  shows "browser_wf (s\<lparr>workingTab := Some (pages s (contexts s ! c) ! t)\<rparr>)
    \<and> pageTypesRecorded (s\<lparr>workingTab := Some (pages s (contexts s ! c) ! t)\<rparr>)"
proof -
  let ?p = "pages s (contexts s ! c) ! t"
  have mem: "?p \<in> set (pages s (contexts s ! c))"
    using assms(4) by simp
  have "\<forall>p\<in>set (pages s (contexts s ! c)). page_context p = contexts s ! c"
    using assms(1) by (simp add: browser_wf_def)
  then have ctx: "page_context ?p = contexts s ! c"
    using mem by blast
  have "contexts s ! c \<in> set (contexts s)"
    using assms(3) by simp
  then have "page_context ?p \<in> set (contexts s) \<and> ?p \<in> set (pages s (page_context ?p))"
    using mem ctx by simp
  then have "browser_wf (s\<lparr>workingTab := Some ?p\<rparr>)"
    using assms(1) by (simp add: browser_wf_def)
  moreover have "pageTypesRecorded (s\<lparr>workingTab := Some ?p\<rparr>)"
    using assms(2) by (simp add: pageTypesRecorded_def)
  ultimately show ?thesis by simp
qed

lemma updateWorkingTab_inv:
  assumes "browser_wf s" and "pageTypesRecorded s"
  shows "browser_wf (snd (updateWorkingTab c t s))
    \<and> pageTypesRecorded (snd (updateWorkingTab c t s))"
proof (cases "0 \<le> c \<and> c < int (length (contexts s))
    \<and> 0 \<le> t \<and> t < int (length (pages s (contexts s ! nat c)))")
  case True
  then have "nat c < length (contexts s)" "nat t < length (pages s (contexts s ! nat c))"
    by linarith+
  then have "browser_wf (s\<lparr>workingTab := Some (pages s (contexts s ! nat c) ! nat t)\<rparr>)
    \<and> pageTypesRecorded (s\<lparr>workingTab := Some (pages s (contexts s ! nat c) ! nat t)\<rparr>)"
    by (rule refocus_inv [OF assms])
  then show ?thesis
    using True by (simp add: updateWorkingTab_apply getPage_apply)
next
  case False
  then show ?thesis
    using assms by (auto simp: updateWorkingTab_apply getPage_apply)
qed

lemma switchWorkingTab_shape:
  "snd (switchWorkingTab c t cur nxt s) = s
   \<or> (\<exists>i j. snd (switchWorkingTab c t cur nxt s)
        = snd (updateWorkingTab c t (snd (updatePageType i j cur s))))"
  by (auto simp: switchWorkingTab_def andThen_def browser_apply
      split: option.splits if_splits)

lemma switchWorkingTab_inv:
  assumes "browser_wf s" and "pageTypesRecorded s"
  shows "browser_wf (snd (switchWorkingTab c t cur nxt s))
    \<and> pageTypesRecorded (snd (switchWorkingTab c t cur nxt s))"
proof -
  have "browser_wf (snd (updateWorkingTab c t (snd (updatePageType i j cur s))))
      \<and> pageTypesRecorded (snd (updateWorkingTab c t (snd (updatePageType i j cur s))))" for i j
    using updatePageType_inv [OF assms, of i j cur] updateWorkingTab_inv by blast
  then show ?thesis
    using assms switchWorkingTab_shape [of c t cur nxt s] by auto
qed

lemma andThen_Inl: "fst (m s) = Inl e \<Longrightarrow> andThen m f s = (Inl e, snd (m s))"
  by (cases "m s") (simp add: andThen_def)

lemma andThen_Inr: "fst (m s) = Inr a \<Longrightarrow> andThen m f s = f a (snd (m s))"
  by (cases "m s") (simp add: andThen_def)

lemma newTabInNewContext_state:
  assumes "length (pageTypes s) = length (contexts s)"
  shows "andThen browser_newContext (\<lambda>newContext.
      andThen (context_newPage newContext) (\<lambda>newTab.
      andThen initializeContextPageTypes (\<lambda>_.
      andThen latestContextIndex (\<lambda>contextIndex.
      andThen (initializePageType contextIndex 0) (\<lambda>_.
      andThen latestContextIndex (\<lambda>contextIndex.
      updateWorkingTab contextIndex 0)))))) s
    = (Inr (),
       s\<lparr>contexts := contexts s @ [createdContexts s],
         createdContexts := Suc (createdContexts s),
         pages := (pages s)(createdContexts s :=
           [\<lparr>page_id = createdPages s, page_context = createdContexts s\<rparr>]),
         createdPages := Suc (createdPages s),
         pageTypes := pageTypes s @ [(\<lambda>tabIndex. None)(0 \<mapsto> ''Blank'')],
         workingTab := Some \<lparr>page_id = createdPages s, page_context = createdContexts s\<rparr>\<rparr>)"
  using assms [symmetric]
  by (simp add: andThen_def browser_apply browser_newContext_apply context_newPage_apply
      initializeContextPageTypes_def modify_def nth_append)

lemma newTabInNewContext_inv:
  assumes wf: "browser_wf s" and rec: "pageTypesRecorded s"
  shows "browser_wf (s\<lparr>contexts := contexts s @ [createdContexts s],
         createdContexts := Suc (createdContexts s),
         pages := (pages s)(createdContexts s :=
           [\<lparr>page_id = createdPages s, page_context = createdContexts s\<rparr>]),
         createdPages := Suc (createdPages s),
         pageTypes := pageTypes s @ [(\<lambda>tabIndex. None)(0 \<mapsto> ''Blank'')],
         workingTab := Some \<lparr>page_id = createdPages s, page_context = createdContexts s\<rparr>\<rparr>)
    \<and> pageTypesRecorded (s\<lparr>contexts := contexts s @ [createdContexts s],
         createdContexts := Suc (createdContexts s),
         pages := (pages s)(createdContexts s :=
           [\<lparr>page_id = createdPages s, page_context = createdContexts s\<rparr>]),
         createdPages := Suc (createdPages s),
         pageTypes := pageTypes s @ [(\<lambda>tabIndex. None)(0 \<mapsto> ''Blank'')],
         workingTab := Some \<lparr>page_id = createdPages s, page_context = createdContexts s\<rparr>\<rparr>)"
proof -
  have fresh: "createdContexts s \<notin> set (contexts s)"
    using wf by (auto simp: browser_wf_def)
  have old: "contexts s ! c \<noteq> createdContexts s" if "c < length (contexts s)" for c
    using fresh that nth_mem by metis
  have len: "length (pageTypes s) = length (contexts s)"
    using rec by (simp add: pageTypesRecorded_def)
  have "browser_wf (s\<lparr>contexts := contexts s @ [createdContexts s],
         createdContexts := Suc (createdContexts s),
         pages := (pages s)(createdContexts s :=
           [\<lparr>page_id = createdPages s, page_context = createdContexts s\<rparr>]),
         createdPages := Suc (createdPages s),
         pageTypes := pageTypes s @ [(\<lambda>tabIndex. None)(0 \<mapsto> ''Blank'')],
         workingTab := Some \<lparr>page_id = createdPages s, page_context = createdContexts s\<rparr>\<rparr>)"
    using wf fresh by (auto simp: browser_wf_def less_Suc_eq)
  moreover have "pageTypesRecorded (s\<lparr>contexts := contexts s @ [createdContexts s],
         createdContexts := Suc (createdContexts s),
         pages := (pages s)(createdContexts s :=
           [\<lparr>page_id = createdPages s, page_context = createdContexts s\<rparr>]),
         createdPages := Suc (createdPages s),
         pageTypes := pageTypes s @ [(\<lambda>tabIndex. None)(0 \<mapsto> ''Blank'')],
         workingTab := Some \<lparr>page_id = createdPages s, page_context = createdContexts s\<rparr>\<rparr>)"
    using rec old len
    by (auto simp: pageTypesRecorded_def nth_append less_Suc_eq)
  ultimately show ?thesis by simp
qed

lemma openNewTabInNewContext_inv:
  assumes wf: "browser_wf s" and rec: "pageTypesRecorded s"
  shows "browser_wf (snd (openNewTabInNewContext cur s))
    \<and> pageTypesRecorded (snd (openNewTabInNewContext cur s))"
proof -
  let ?first = "case cur of
        None \<Rightarrow> ret ()
      | Some t \<Rightarrow>
          if t = [] then ret ()
          else andThen workingContextIndex (\<lambda>contextIndex.
               andThen workingTabIndex (\<lambda>tabIndex.
               updatePageType contextIndex tabIndex t))"
  have shape: "snd (?first s) = s \<or> (\<exists>i j t. snd (?first s) = snd (updatePageType i j t s))"
    by (auto simp: ret_def andThen_def browser_apply split: option.splits if_splits)
  then have inv1: "browser_wf (snd (?first s)) \<and> pageTypesRecorded (snd (?first s))"
    using assms updatePageType_inv [OF assms] by auto
  show ?thesis
  proof (cases "fst (?first s)")
    case (Inl e)
    then have "snd (openNewTabInNewContext cur s) = snd (?first s)"
      unfolding openNewTabInNewContext_def by (simp only: andThen_Inl [where m = ?first and s = s, OF Inl] snd_conv)
    with inv1 show ?thesis by simp
  next
    case (Inr u)
    have len: "length (pageTypes (snd (?first s))) = length (contexts (snd (?first s)))"
      using inv1 by (simp add: pageTypesRecorded_def)
    have "openNewTabInNewContext cur s =
      andThen browser_newContext (\<lambda>newContext.
      andThen (context_newPage newContext) (\<lambda>newTab.
      andThen initializeContextPageTypes (\<lambda>_.
      andThen latestContextIndex (\<lambda>contextIndex.
      andThen (initializePageType contextIndex 0) (\<lambda>_.
      andThen latestContextIndex (\<lambda>contextIndex.
      updateWorkingTab contextIndex 0)))))) (snd (?first s))"
      unfolding openNewTabInNewContext_def by (simp only: andThen_Inr [where m = ?first and s = s, OF Inr])
    then show ?thesis
      using newTabInNewContext_inv inv1
      by (simp only: newTabInNewContext_state [OF len] snd_conv)
  qed
qed

lemma removeAll_nth_distinct:
  assumes "distinct xs" and "i < length xs"
  shows "removeAll (xs ! i) xs = take i xs @ drop (Suc i) xs"
proof -
  have split: "xs = take i xs @ xs ! i # drop (Suc i) xs"
    using assms(2) by (rule id_take_nth_drop)
  have "distinct (take i xs @ xs ! i # drop (Suc i) xs)"
    using assms(1) split by simp
  then have "xs ! i \<notin> set (take i xs)" "xs ! i \<notin> set (drop (Suc i) xs)"
    by auto
  then have "removeAll (xs ! i) (take i xs @ xs ! i # drop (Suc i) xs)
      = take i xs @ drop (Suc i) xs"
    by simp
  then show ?thesis
    using split by simp
qed

lemma splice1_valid:
  "0 \<le> c \<Longrightarrow> c < int (length xs) \<Longrightarrow> splice1 xs c = take (nat c) xs @ drop (Suc (nat c)) xs"
  by (simp add: splice1_def Let_def min_def)

lemma nth_take_drop:
  assumes "i < length xs" and "j < length xs - 1"
  shows "(take i xs @ drop (Suc i) xs) ! j = xs ! (if j < i then j else Suc j)"
  using assms by (auto simp: nth_append min_def)

lemma fold_page_close_fields:
  "contexts (fold page_close ps s) = contexts s"
  "workingTab (fold page_close ps s) = workingTab s"
  "pageTypes (fold page_close ps s) = pageTypes s"
  "createdContexts (fold page_close ps s) = createdContexts s"
  "createdPages (fold page_close ps s) = createdPages s"
  by (induction ps arbitrary: s) (simp_all add: page_close_def)

lemma fold_page_close_other:
  "\<forall>p\<in>set ps. page_context p = k \<Longrightarrow> k' \<noteq> k \<Longrightarrow> pages (fold page_close ps s) k' = pages s k'"
  by (induction ps arbitrary: s) (simp_all add: page_close_def)

lemma closeContext_completes:
  assumes "completes (closeContext c s)"
  shows "0 \<le> c \<and> c < int (length (contexts s))
    \<and> (\<exists>tab. workingTab s = Some tab \<and> indexOf (contexts s) (page_context tab) \<noteq> c)
    \<and> snd (closeContext c s) =
        (context_close (contexts s ! nat c)
           (fold page_close (pages s (contexts s ! nat c)) s))
          \<lparr>pageTypes := splice1 (pageTypes s) c\<rparr>"
  using assms
  by (auto simp: closeContext_def andThen_def completes_def browser_apply closePages_def
      modify_def removeContextPageTypes_def fold_page_close_fields context_close_def
      split: option.splits if_splits)

lemma closeContext_inv:
  assumes wf: "browser_wf s" and rec: "pageTypesRecorded s"
  shows "browser_wf (snd (closeContext c s)) \<and> pageTypesRecorded (snd (closeContext c s))"
proof (cases "completes (closeContext c s)")
  case False
  then show ?thesis
    using assms closeContext_fails_unchanged by simp
next
  case True
  let ?i = "nat c"
  let ?k = "contexts s ! ?i"
  let ?s' = "snd (closeContext c s)"
  obtain tab where c: "0 \<le> c" "c < int (length (contexts s))"
    and tab: "workingTab s = Some tab" "indexOf (contexts s) (page_context tab) \<noteq> c"
    and s': "?s' = (context_close ?k (fold page_close (pages s ?k) s))
          \<lparr>pageTypes := splice1 (pageTypes s) c\<rparr>"
    using closeContext_completes [OF True] by blast
  have i: "?i < length (contexts s)" using c by linarith
  have d: "distinct (contexts s)" using wf by (simp add: browser_wf_def)
  have own: "\<forall>p\<in>set (pages s ?k). page_context p = ?k"
    using wf by (simp add: browser_wf_def)
  have ctx: "contexts ?s' = take ?i (contexts s) @ drop (Suc ?i) (contexts s)"
    by (simp add: s' context_close_def fold_page_close_fields removeAll_nth_distinct [OF d i])
  have pgs: "pages ?s' k' = (if k' = ?k then [] else pages s k')" for k'
    using fold_page_close_other [OF own, of k' s]
    by (simp add: s' context_close_def)
  have len: "length (pageTypes s) = length (contexts s)"
    using rec by (simp add: pageTypesRecorded_def)
  have pts: "pageTypes ?s' = take ?i (pageTypes s) @ drop (Suc ?i) (pageTypes s)"
    using c len by (simp add: s' splice1_valid)
  have others: "workingTab ?s' = workingTab s" "createdContexts ?s' = createdContexts s"
    "createdPages ?s' = createdPages s"
    by (simp_all add: s' context_close_def fold_page_close_fields)
  have "indexOf (contexts s) ?k = c"
    using wf_index [OF wf i] c by simp
  then have notk: "page_context tab \<noteq> ?k"
    using tab(2) by auto
  have sub: "set (contexts ?s') = set (contexts s) - {?k}"
    using d by (simp add: s' context_close_def fold_page_close_fields)
  have wf': "browser_wf ?s'"
    unfolding browser_wf_def
  proof (intro conjI)
    show "distinct (contexts ?s')"
      using d by (simp add: s' context_close_def fold_page_close_fields distinct_removeAll)
    show "\<forall>k\<in>set (contexts ?s'). k < createdContexts ?s'"
      using wf by (simp add: sub others browser_wf_def)
    show "\<forall>k. \<forall>p\<in>set (pages ?s' k). page_context p = k \<and> page_id p < createdPages ?s'"
      using wf by (simp add: pgs others browser_wf_def)
    show "\<forall>k. distinct (pages ?s' k)"
      using wf by (simp add: pgs browser_wf_def)
    show "\<forall>tab. workingTab ?s' = Some tab \<longrightarrow>
        page_context tab \<in> set (contexts ?s') \<and> tab \<in> set (pages ?s' (page_context tab))"
      using wf tab notk by (simp add: sub others pgs browser_wf_def)
  qed
  have rec': "pageTypesRecorded ?s'"
    unfolding pageTypesRecorded_def
  proof (intro conjI allI impI)
    show "length (pageTypes ?s') = length (contexts ?s')"
      using len by (simp add: ctx pts)
  next
    fix c' t
    assume c': "c' < length (contexts ?s')" and t: "t < length (pages ?s' (contexts ?s' ! c'))"
    let ?j = "if c' < ?i then c' else Suc c'"
    have c'': "c' < length (contexts s) - 1"
      using c' i by (simp add: ctx min_def)
    then have j: "?j < length (contexts s)" "?j \<noteq> ?i" by auto
    have cj: "contexts ?s' ! c' = contexts s ! ?j"
      unfolding ctx using i c'' by (rule nth_take_drop)
    have pj: "pageTypes ?s' ! c' = pageTypes s ! ?j"
      unfolding pts using i c'' len nth_take_drop [of ?i "pageTypes s" c'] by simp
    have "contexts s ! ?j \<noteq> ?k"
      using d j i nth_eq_iff_index_eq [of "contexts s" ?j ?i] by blast
    then have "t < length (pages s (contexts s ! ?j))"
      using t by (simp add: cj pgs)
    then have "(pageTypes s ! ?j) (int t) \<noteq> None"
      using rec j(1) by (simp add: pageTypesRecorded_def)
    then show "(pageTypes ?s' ! c') (int t) \<noteq> None"
      using pj by simp
  qed
  show ?thesis using wf' rec' by simp
qed

lemma browser_init_inv: "browser_wf browser_init \<and> pageTypesRecorded browser_init"
  by (simp add: browser_wf_def pageTypesRecorded_def browser_init_def)

lemma browser_run_inv:
  assumes "withoutCloseTab ops" and "browser_wf s" and "pageTypesRecorded s"
  shows "browser_wf (snd (browser_run ops s)) \<and> pageTypesRecorded (snd (browser_run ops s))"
  using assms
proof (induction ops arbitrary: s)
  case Nil
  then show ?case by (simp add: ret_def)
next
  case (Cons op ops)
  have step: "browser_wf (snd (browser_step op s)) \<and> pageTypesRecorded (snd (browser_step op s))"
    using Cons.prems openNewTabInCurrentContext_inv openNewTabInNewContext_inv
      switchWorkingTab_inv closeContext_inv
    by (cases op) simp_all
  have rest: "withoutCloseTab ops"
    using Cons.prems(1) by (cases op) simp_all
  show ?case
  proof (cases "fst (browser_step op s)")
    case (Inl e)
    then show ?thesis
      using step by (simp add: andThen_Inl [where m = "browser_step op" and s = s, OF Inl])
  next
    case (Inr u)
    then show ?thesis
      using Cons.IH [OF rest] step
      by (simp add: andThen_Inr [where m = "browser_step op" and s = s, OF Inr])
  qed
qed

lemma pageTypesRecorded_pageType:
  assumes "pageTypesRecorded s" and "0 \<le> c" and "c < int (length (contexts s))"
    and "0 \<le> t" and "t < int (length (pages s (contexts s ! nat c)))"
  shows "\<exists>recorded. fst (pageType c t s) = Inr (Some recorded)"
proof -
  have bounds: "nat c < length (contexts s)" "nat t < length (pages s (contexts s ! nat c))"
    using assms by linarith+
  have "\<forall>c<length (contexts s). \<forall>t<length (pages s (contexts s ! c)).
      (pageTypes s ! c) (int t) \<noteq> None"
    using assms(1) by (simp add: pageTypesRecorded_def)
  then have "(pageTypes s ! nat c) (int (nat t)) \<noteq> None"
    using bounds by blast
  then have entry: "(pageTypes s ! nat c) t \<noteq> None"
    using assms(4) by simp
  have "length (pageTypes s) = length (contexts s)"
    using assms(1) by (simp add: pageTypesRecorded_def)
  then have "pageType c t s = (Inr ((pageTypes s ! nat c) t), s)"
    using assms(2,3) by (simp add: pageType_apply)
  then show ?thesis
    using entry by auto
qed

text \<open>
  Without \<open>closeTab\<close> the page types stay in step with the browser: after any steps of
  \<open>openNewTabInCurrentContext\<close>, \<open>openNewTabInNewContext\<close>, \<open>switchWorkingTab\<close> and
  \<open>closeContext\<close>, whether the last one completed or threw, \<open>pageType(c, t)\<close> is a defined
  string for every open context index \<open>c\<close> and tab index \<open>t\<close>.
\<close>

lemma page_types_recorded_without_closeTab:
  assumes "withoutCloseTab ops"
    and "0 \<le> c" and "c < int (length (contexts (snd (browser_run ops browser_init))))"
    and "0 \<le> t"
    and "t < int (length (pages (snd (browser_run ops browser_init))
                 (contexts (snd (browser_run ops browser_init)) ! nat c)))"
  shows "\<exists>recorded. fst (pageType c t (snd (browser_run ops browser_init))) = Inr (Some recorded)"
  using browser_run_inv [OF assms(1), of browser_init] browser_init_inv
    pageTypesRecorded_pageType [OF _ assms(2-5)]
  by blast

section \<open>Properties: browserHelper, the working tab\<close>

lemma openNewTabInNewContext_first_completes:
  assumes wf: "browser_wf s" and rec: "pageTypesRecorded s"
    and cur: "cur = None \<or> cur = Some [] \<or> workingTab s \<noteq> None"
  shows "fst ((case cur of
        None \<Rightarrow> ret ()
      | Some t \<Rightarrow>
          if t = [] then ret ()
          else andThen workingContextIndex (\<lambda>contextIndex.
               andThen workingTabIndex (\<lambda>tabIndex.
               updatePageType contextIndex tabIndex t))) s) = Inr ()"
proof (cases "cur = None \<or> cur = Some []")
  case True
  then show ?thesis by (auto simp: ret_def)
next
  case False
  then obtain t tab where t: "cur = Some t" "t \<noteq> []" and tab: "workingTab s = Some tab"
    using cur by (cases cur) auto
  have "page_context tab \<in> set (contexts s)"
    using wf tab by (simp add: browser_wf_def)
  then have "0 \<le> indexOf (contexts s) (page_context tab)"
    "nat (indexOf (contexts s) (page_context tab)) < length (contexts s)"
    using indexOf_nat [of "page_context tab" "contexts s"] by simp_all
  moreover have "length (pageTypes s) = length (contexts s)"
    using rec by (simp add: pageTypesRecorded_def)
  ultimately show ?thesis
    using t tab by (simp add: andThen_def browser_apply)
qed

lemma openNewTabInNewContext_reaches:
  assumes wf: "browser_wf s" and rec: "pageTypesRecorded s"
    and cur: "cur = None \<or> cur = Some [] \<or> workingTab s \<noteq> None"
  shows "completes (openNewTabInNewContext cur s)"
proof -
  let ?first = "case cur of
        None \<Rightarrow> ret ()
      | Some t \<Rightarrow>
          if t = [] then ret ()
          else andThen workingContextIndex (\<lambda>contextIndex.
               andThen workingTabIndex (\<lambda>tabIndex.
               updatePageType contextIndex tabIndex t))"
  have Inr: "fst (?first s) = Inr ()"
    using assms by (rule openNewTabInNewContext_first_completes)
  have shape: "snd (?first s) = s \<or> (\<exists>i j t. snd (?first s) = snd (updatePageType i j t s))"
    by (auto simp: ret_def andThen_def browser_apply split: option.splits if_splits)
  then have "pageTypesRecorded (snd (?first s))"
    using wf rec updatePageType_inv [OF wf rec] by auto
  then have len: "length (pageTypes (snd (?first s))) = length (contexts (snd (?first s)))"
    by (simp add: pageTypesRecorded_def)
  have "openNewTabInNewContext cur s =
      andThen browser_newContext (\<lambda>newContext.
      andThen (context_newPage newContext) (\<lambda>newTab.
      andThen initializeContextPageTypes (\<lambda>_.
      andThen latestContextIndex (\<lambda>contextIndex.
      andThen (initializePageType contextIndex 0) (\<lambda>_.
      andThen latestContextIndex (\<lambda>contextIndex.
      updateWorkingTab contextIndex 0)))))) (snd (?first s))"
    unfolding openNewTabInNewContext_def
    by (simp only: andThen_Inr [where m = ?first and s = s, OF Inr])
  then show ?thesis
    by (simp only: newTabInNewContext_state [OF len] completes_def fst_conv sum.case)
qed

lemma openNewTabInCurrentContext_reaches:
  assumes "browser_wf s" and "pageTypesRecorded s" and "workingTab s \<noteq> None"
  shows "completes (openNewTabInCurrentContext cur s)"
proof -
  obtain tab where "workingTab s = Some tab"
    using assms(3) by auto
  then show ?thesis
    by (simp only: openNewTabInCurrentContext_state [OF assms(1,2)] completes_def fst_conv
        sum.case)
qed

lemma switchWorkingTab_reaches:
  assumes wf: "browser_wf s" and rec: "pageTypesRecorded s"
    and page: "fst (getPage c t s) = Inr tab"
    and other: "fst (isWorkingTab c t s) = Inr False"
    and type: "fst (pageType c t s) = Inr (Some nxt)"
  shows "completes (switchWorkingTab c t cur nxt s)
    \<and> workingTab (snd (switchWorkingTab c t cur nxt s)) = Some tab"
proof -
  have bounds: "0 \<le> c" "c < int (length (contexts s))" "0 \<le> t"
    "t < int (length (pages s (contexts s ! nat c)))"
    and tab: "pages s (contexts s ! nat c) ! nat t = tab"
    using page by (auto simp: getPage_apply split: if_splits)
  obtain wt where wt: "workingTab s = Some wt"
    using other by (auto simp: isWorkingTab_apply split: option.splits)
  let ?wci = "indexOf (contexts s) (page_context wt)"
  let ?wti = "indexOf (pages s (page_context wt)) wt"
  have "page_context wt \<in> set (contexts s)"
    using wf wt by (simp add: browser_wf_def)
  then have wci: "0 \<le> ?wci" "nat ?wci < length (contexts s)"
    using indexOf_nat [of "page_context wt" "contexts s"] by simp_all
  have len: "length (pageTypes s) = length (contexts s)"
    using rec by (simp add: pageTypesRecorded_def)
  have "switchWorkingTab c t cur nxt s =
    (Inr (), s\<lparr>pageTypes := (pageTypes s)[nat ?wci := (pageTypes s ! nat ?wci)(?wti \<mapsto> cur)],
               workingTab := Some (pages s (contexts s ! nat c) ! nat t)\<rparr>)"
  proof (rule switchWorkingTab_switches [where latest = "int (length (contexts s)) - 1"
        and latestTab = "int (length (pages s (contexts s ! nat c))) - 1"])
    show "fst (latestContextIndex s) = Inr (int (length (contexts s)) - 1)"
      by (simp add: latestContextIndex_apply)
    show "c \<le> int (length (contexts s)) - 1" using bounds by simp
    show "fst (latestTabIndex c s) = Inr (int (length (pages s (contexts s ! nat c))) - 1)"
      using bounds by (simp add: latestTabIndex_apply)
    show "0 \<le> t" by (rule bounds)
    show "t \<le> int (length (pages s (contexts s ! nat c))) - 1" using bounds by simp
    show "fst (isWorkingTab c t s) = Inr False" by (rule other)
    show "fst (pageType c t s) = Inr (Some nxt)" by (rule type)
    show "fst (workingContextIndex s) = Inr ?wci"
      using wt by (simp add: workingContextIndex_apply)
    show "fst (workingTabIndex s) = Inr ?wti"
      using wt by (simp add: workingTabIndex_apply)
    show "fst (contextPageTypes ?wci s) = Inr (pageTypes s ! nat ?wci)"
      using wci len by (simp add: contextPageTypes_apply)
  qed
  then show ?thesis
    using tab by (simp add: completes_def)
qed


text \<open>
  C5. When \<open>openNewTabInCurrentContext\<close> completes, the working tab is the page just
  created, the last page of the context of the previous working tab. When
  \<open>openNewTabInNewContext\<close> completes, the working tab is page 0 of the context just created,
  the last of \<open>browser.contexts()\<close>, and its recorded page type is \<open>Blank\<close>. When
  \<open>switchWorkingTab c t\<close> completes, the working tab is the page at index \<open>t\<close> of context
  \<open>c\<close>. And the three do complete and move the working tab: in a state reached from the
  initial one by steps other than \<open>closeTab\<close>, \<open>openNewTabInCurrentContext\<close> completes
  when there is a working tab, \<open>openNewTabInNewContext\<close> completes when there is a working
  tab or no current page type is given, and \<open>switchWorkingTab c t\<close> completes when the page
  at \<open>[c, t]\<close> exists, is not the working tab and has \<open>nextPageType\<close> recorded; the working
  tab is then the new page, page 0 of the new context, and the page at \<open>[c, t]\<close>.
\<close>

theorem working_tab_tracked:
  "(completes (openNewTabInCurrentContext cur s) \<longrightarrow>
      (\<exists>tab. workingTab s = Some tab
         \<and> workingTab (snd (openNewTabInCurrentContext cur s))
             = Some \<lparr>page_id = createdPages s, page_context = page_context tab\<rparr>
         \<and> pages (snd (openNewTabInCurrentContext cur s)) (page_context tab)
             = pages s (page_context tab)
                 @ [\<lparr>page_id = createdPages s, page_context = page_context tab\<rparr>]))
   \<and> (completes (openNewTabInNewContext cur' s) \<longrightarrow>
        contexts (snd (openNewTabInNewContext cur' s)) = contexts s @ [createdContexts s]
        \<and> pages (snd (openNewTabInNewContext cur' s)) (createdContexts s)
            = [\<lparr>page_id = createdPages s, page_context = createdContexts s\<rparr>]
        \<and> workingTab (snd (openNewTabInNewContext cur' s))
            = Some \<lparr>page_id = createdPages s, page_context = createdContexts s\<rparr>
        \<and> fst (pageType (int (length (contexts (snd (openNewTabInNewContext cur' s)))) - 1) 0
                 (snd (openNewTabInNewContext cur' s))) = Inr (Some ''Blank''))
   \<and> (completes (switchWorkingTab c t cur nxt s) \<longrightarrow>
        (\<exists>tab. fst (getPage c t (snd (switchWorkingTab c t cur nxt s))) = Inr tab
           \<and> workingTab (snd (switchWorkingTab c t cur nxt s)) = Some tab))
   \<and> (withoutCloseTab ops \<and> workingTab (snd (browser_run ops browser_init)) = Some working \<longrightarrow>
        completes (openNewTabInCurrentContext cur (snd (browser_run ops browser_init)))
        \<and> workingTab (snd (openNewTabInCurrentContext cur (snd (browser_run ops browser_init))))
            = Some \<lparr>page_id = createdPages (snd (browser_run ops browser_init)),
                     page_context = page_context working\<rparr>)
   \<and> (withoutCloseTab ops
        \<and> (cur' = None \<or> cur' = Some [] \<or> workingTab (snd (browser_run ops browser_init)) \<noteq> None) \<longrightarrow>
        completes (openNewTabInNewContext cur' (snd (browser_run ops browser_init)))
        \<and> workingTab (snd (openNewTabInNewContext cur' (snd (browser_run ops browser_init))))
            = Some \<lparr>page_id = createdPages (snd (browser_run ops browser_init)),
                     page_context = createdContexts (snd (browser_run ops browser_init))\<rparr>)
   \<and> (withoutCloseTab ops
        \<and> fst (getPage c t (snd (browser_run ops browser_init))) = Inr target
        \<and> fst (isWorkingTab c t (snd (browser_run ops browser_init))) = Inr False
        \<and> fst (pageType c t (snd (browser_run ops browser_init))) = Inr (Some nxt) \<longrightarrow>
        completes (switchWorkingTab c t cur nxt (snd (browser_run ops browser_init)))
        \<and> workingTab (snd (switchWorkingTab c t cur nxt (snd (browser_run ops browser_init))))
            = Some target)"
proof (intro conjI impI; (elim conjE)?)
  let ?r = "snd (browser_run ops browser_init)"
  show "\<exists>tab. workingTab s = Some tab
         \<and> workingTab (snd (openNewTabInCurrentContext cur s))
             = Some \<lparr>page_id = createdPages s, page_context = page_context tab\<rparr>
         \<and> pages (snd (openNewTabInCurrentContext cur s)) (page_context tab)
             = pages s (page_context tab)
                 @ [\<lparr>page_id = createdPages s, page_context = page_context tab\<rparr>]"
    if "completes (openNewTabInCurrentContext cur s)"
    using that by (rule openNewTabInCurrentContext_completes)
  note new = openNewTabInNewContext_completes [of cur' s]
  show "contexts (snd (openNewTabInNewContext cur' s)) = contexts s @ [createdContexts s]"
    if "completes (openNewTabInNewContext cur' s)"
    using new [OF that] by (elim conjE)
  show "pages (snd (openNewTabInNewContext cur' s)) (createdContexts s)
            = [\<lparr>page_id = createdPages s, page_context = createdContexts s\<rparr>]"
    if "completes (openNewTabInNewContext cur' s)"
    using new [OF that] by (elim conjE)
  show "workingTab (snd (openNewTabInNewContext cur' s))
            = Some \<lparr>page_id = createdPages s, page_context = createdContexts s\<rparr>"
    if "completes (openNewTabInNewContext cur' s)"
    using new [OF that] by (elim conjE)
  show "fst (pageType (int (length (contexts (snd (openNewTabInNewContext cur' s)))) - 1) 0
                 (snd (openNewTabInNewContext cur' s))) = Inr (Some ''Blank'')"
    if "completes (openNewTabInNewContext cur' s)"
    using new [OF that] by (elim conjE)
  show "\<exists>tab. fst (getPage c t (snd (switchWorkingTab c t cur nxt s))) = Inr tab
           \<and> workingTab (snd (switchWorkingTab c t cur nxt s)) = Some tab"
    if "completes (switchWorkingTab c t cur nxt s)"
    using that by (rule switchWorkingTab_completes)
  have inv: "browser_wf ?r" "pageTypesRecorded ?r" if "withoutCloseTab ops"
    using browser_run_inv [OF that browser_init_inv [THEN conjunct1] browser_init_inv [THEN conjunct2]]
    by simp_all
  show cur_ok: "completes (openNewTabInCurrentContext cur ?r)"
    if "withoutCloseTab ops" "workingTab ?r = Some working"
    using inv [OF that(1)] that(2) by (simp add: openNewTabInCurrentContext_reaches)
  show "workingTab (snd (openNewTabInCurrentContext cur ?r))
            = Some \<lparr>page_id = createdPages ?r, page_context = page_context working\<rparr>"
    if "withoutCloseTab ops" "workingTab ?r = Some working"
    using openNewTabInCurrentContext_completes [OF cur_ok [OF that]] that(2) by simp
  show new_ok: "completes (openNewTabInNewContext cur' ?r)"
    if "withoutCloseTab ops" "cur' = None \<or> cur' = Some [] \<or> workingTab ?r \<noteq> None"
    using inv [OF that(1)] that(2) by (rule openNewTabInNewContext_reaches)
  show "workingTab (snd (openNewTabInNewContext cur' ?r))
            = Some \<lparr>page_id = createdPages ?r, page_context = createdContexts ?r\<rparr>"
    if "withoutCloseTab ops" "cur' = None \<or> cur' = Some [] \<or> workingTab ?r \<noteq> None"
    using openNewTabInNewContext_completes [OF new_ok [OF that]] by (elim conjE)
  note switch = switchWorkingTab_reaches [where s = ?r and c = c and t = t and tab = target
      and nxt = nxt and cur = cur]
  show "completes (switchWorkingTab c t cur nxt ?r)"
    if "withoutCloseTab ops" "fst (getPage c t ?r) = Inr target"
      "fst (isWorkingTab c t ?r) = Inr False" "fst (pageType c t ?r) = Inr (Some nxt)"
    using switch [OF inv [OF that(1)] that(2,3,4)] by (elim conjE)
  show "workingTab (snd (switchWorkingTab c t cur nxt ?r)) = Some target"
    if "withoutCloseTab ops" "fst (getPage c t ?r) = Inr target"
      "fst (isWorkingTab c t ?r) = Inr False" "fst (pageType c t ?r) = Inr (Some nxt)"
    using switch [OF inv [OF that(1)] that(2,3,4)] by (elim conjE)
qed

theorem working_tab_tracked_witness:
  "workingTab (snd (openNewTabInNewContext None browser_init))
     = Some \<lparr>page_id = 0, page_context = 0\<rparr>
   \<and> fst (pageType 0 0 (snd (openNewTabInNewContext None browser_init))) = Inr (Some ''Blank'')
   \<and> workingTab (snd (browser_run example_two_contexts browser_init))
       = Some \<lparr>page_id = 2, page_context = 1\<rparr>
   \<and> completes (openNewTabInCurrentContext ''Checkout''
         (snd (browser_run example_two_contexts browser_init)))
   \<and> workingTab (snd (openNewTabInCurrentContext ''Checkout''
         (snd (browser_run example_two_contexts browser_init))))
       = Some \<lparr>page_id = 3, page_context = 1\<rparr>
   \<and> completes (openNewTabInNewContext (Some ''Checkout'')
         (snd (browser_run example_two_contexts browser_init)))
   \<and> workingTab (snd (openNewTabInNewContext (Some ''Checkout'')
         (snd (browser_run example_two_contexts browser_init))))
       = Some \<lparr>page_id = 3, page_context = 2\<rparr>
   \<and> completes (switchWorkingTab 0 1 ''Checkout'' ''Cart''
         (snd (browser_run example_two_contexts browser_init)))
   \<and> workingTab (snd (switchWorkingTab 0 1 ''Checkout'' ''Cart''
         (snd (browser_run example_two_contexts browser_init))))
       = Some \<lparr>page_id = 1, page_context = 0\<rparr>"
proof -
  let ?s' = "snd (openNewTabInNewContext None browser_init)"
  let ?r = "snd (browser_run example_two_contexts browser_init)"
  have ok: "completes (openNewTabInNewContext None browser_init)"
    by code_simp
  have len: "int (length (contexts ?s')) - 1 = 0"
    by code_simp
  have new: "createdPages browser_init = 0" "createdContexts browser_init = 0"
    by (simp_all add: browser_init_def)
  have first: "workingTab ?s'
      = Some \<lparr>page_id = createdPages browser_init, page_context = createdContexts browser_init\<rparr>
    \<and> fst (pageType (int (length (contexts ?s')) - 1) 0 ?s') = Inr (Some ''Blank'')"
    using ok working_tab_tracked [where s = browser_init and cur' = None] by blast
  have ops: "withoutCloseTab example_two_contexts"
    by code_simp
  have working: "workingTab ?r = Some \<lparr>page_id = 2, page_context = 1\<rparr>"
    by code_simp
  have created: "createdPages ?r = 3" "createdContexts ?r = 2"
    "page_context \<lparr>page_id = 2, page_context = 1\<rparr> = (1::nat)"
    by code_simp+
  have target: "fst (getPage 0 1 ?r) = Inr \<lparr>page_id = 1, page_context = 0\<rparr>"
    by code_simp
  have other: "fst (isWorkingTab 0 1 ?r) = Inr False"
    by code_simp
  have type: "fst (pageType 0 1 ?r) = Inr (Some ''Cart'')"
    by code_simp
  note reached = working_tab_tracked [where ops = example_two_contexts
      and cur = "''Checkout''" and cur' = "Some ''Checkout''" and c = 0 and t = 1
      and nxt = "''Cart''" and working = "\<lparr>page_id = 2, page_context = 1\<rparr>"
      and target = "\<lparr>page_id = 1, page_context = 0\<rparr>",
      THEN conjunct2, THEN conjunct2, THEN conjunct2]
  have current: "completes (openNewTabInCurrentContext ''Checkout'' ?r)
    \<and> workingTab (snd (openNewTabInCurrentContext ''Checkout'' ?r))
        = Some \<lparr>page_id = createdPages ?r,
                 page_context = page_context \<lparr>page_id = 2, page_context = 1\<rparr>\<rparr>"
    by (rule reached [THEN conjunct1, THEN mp, OF conjI [OF ops working]])
  have "workingTab ?r \<noteq> None"
    using working by simp
  then have "Some ''Checkout'' = None \<or> Some ''Checkout'' = Some []
      \<or> workingTab ?r \<noteq> None"
    by simp
  then have fresh: "completes (openNewTabInNewContext (Some ''Checkout'') ?r)
    \<and> workingTab (snd (openNewTabInNewContext (Some ''Checkout'') ?r))
        = Some \<lparr>page_id = createdPages ?r, page_context = createdContexts ?r\<rparr>"
    by (rule reached [THEN conjunct2, THEN conjunct1, THEN mp, OF conjI [OF ops]])
  have switch: "completes (switchWorkingTab 0 1 ''Checkout'' ''Cart'' ?r)
    \<and> workingTab (snd (switchWorkingTab 0 1 ''Checkout'' ''Cart'' ?r))
        = Some \<lparr>page_id = 1, page_context = 0\<rparr>"
    by (rule reached [THEN conjunct2, THEN conjunct2, THEN mp,
          OF conjI [OF ops conjI [OF target conjI [OF other type]]]])
  note first' = first [unfolded len new]
  note current' = current [unfolded created]
  note fresh' = fresh [unfolded created]
  show ?thesis
    by (rule conjI first' [THEN conjunct1] first' [THEN conjunct2] working
        current' [THEN conjunct1] current' [THEN conjunct2]
        fresh' [THEN conjunct1] fresh' [THEN conjunct2]
        switch [THEN conjunct1] switch [THEN conjunct2])+
qed

end
